theory Spec2Isabelle
  imports Complex_Main "HOL-Library.Multiset"
begin

section \<open>Data model\<close>

text \<open>
  Python integers are unbounded and are modelled as \<^typ>\<open>int\<close>; Python's floor
  division \<^verbatim>\<open>//\<close> is \<open>div\<close> on \<^typ>\<open>int\<close>. Exceptions are values of
  \<open>py_error\<close>, and a function that can raise returns \<open>py_error + 'a\<close>.
  \<open>ValueError\<close> is what the specification calls \<open>InvalidArgument\<close>.
  \<open>OverflowError\<close> is raised by \<^verbatim>\<open>math.sqrt\<close> when its integer argument is too
  large for a float, \<open>IndexError\<close> by \<^verbatim>\<open>data[0]\<close> on an empty container.
\<close>

datatype py_error = ValueError | TypeError | OverflowError | IndexError

text \<open>
  The argument \<^verbatim>\<open>data\<close> of \<^verbatim>\<open>rotateHexCellData\<close> is any Python object. The two
  accepted kinds are a list and a numpy array, both seen as the sequence of their
  entries along the first dimension; \<open>PyTuple\<close> stands for an object of any other
  kind (a tuple holds the same entries and is still rejected). The entries are of
  any type \<open>'a\<close>; what numpy makes of the entries of a list is described further
  down.
\<close>

datatype 'a pydata = PyList "'a list" | NdArray "'a list" | PyTuple "'a list"

fun entries :: "'a pydata \<Rightarrow> 'a list" where
  "entries (PyList xs) = xs"
| "entries (NdArray xs) = xs"
| "entries (PyTuple xs) = xs"

fun is_list_or_ndarray :: "'a pydata \<Rightarrow> bool" where
  "is_list_or_ndarray (PyList xs) = True"
| "is_list_or_ndarray (NdArray xs) = True"
| "is_list_or_ndarray (PyTuple xs) = False"

fun same_kind :: "'a pydata \<Rightarrow> 'a list \<Rightarrow> 'a pydata" where
  "same_kind (PyList xs) ys = PyList ys"
| "same_kind (NdArray xs) ys = NdArray ys"
| "same_kind (PyTuple xs) ys = PyTuple ys"

section \<open>Ring arithmetic\<close>

text \<open>
  \<^verbatim>\<open>numPositionsInRing(ring)\<close>: \<^verbatim>\<open>return (ring - 1) * 6 if ring != 1 else 1\<close>.
  There is no check of the argument in the source.
\<close>

definition numPositionsInRing :: "int \<Rightarrow> int" where
  "numPositionsInRing ring = (if ring \<noteq> 1 then (ring - 1) * 6 else 1)"

text \<open>\<^verbatim>\<open>totalPositionsUpToRing(ring)\<close>: \<^verbatim>\<open>return 1 + 3 * ring * (ring - 1)\<close>.\<close>

definition totalPositionsUpToRing :: "int \<Rightarrow> int" where
  "totalPositionsUpToRing ring = 1 + 3 * ring * (ring - 1)"

section \<open>Python floats\<close>

text \<open>
  \<^verbatim>\<open>numRingsToHoldNumCells\<close> computes in Python floats, which are IEEE 754 binary64
  numbers: every operation returns the exact real result rounded to the nearest number
  with a 53 bit significand, ties going to the even significand. A float is modelled
  as the real number it denotes. \<open>round_half_even\<close> rounds a real to the nearest
  integer, \<open>float_ulp x\<close> is the spacing of the floats around \<open>x\<close> (the exponent is
  bounded below by the subnormal range), and \<open>float_round\<close> is the rounding of every
  operation. Overflow is checked where the source can reach it: in the conversion of
  an integer to a float.
\<close>

definition round_half_even :: "real \<Rightarrow> int" where
  "round_half_even x =
     (let n = \<lfloor>x\<rfloor>; f = x - of_int n
      in if f < 1 / 2 then n else if 1 / 2 < f then n + 1 else if even n then n else n + 1)"

definition float_ulp :: "real \<Rightarrow> real" where
  "float_ulp x = 2 powi (max \<lfloor>log 2 \<bar>x\<bar>\<rfloor> (- 1022) - 52)"

definition float_round :: "real \<Rightarrow> real" where
  "float_round x =
     (if x = 0 then 0 else of_int (round_half_even (x / float_ulp x)) * float_ulp x)"

text \<open>
  The conversion of a Python integer to a float, as \<^verbatim>\<open>math.sqrt\<close> applies it to its
  argument: correctly rounded, and \<^verbatim>\<open>OverflowError\<close> when the rounded value is
  beyond the largest float.
\<close>

definition float_of_int :: "int \<Rightarrow> py_error + real" where
  "float_of_int i =
     (let y = float_round (of_int i) in if 2 ^ 1024 \<le> \<bar>y\<bar> then Inl OverflowError else Inr y)"

text \<open>
  \<^verbatim>\<open>math.sqrt\<close> on an integer: the conversion, then \<^verbatim>\<open>ValueError\<close> (math domain
  error) on a negative argument, then the correctly rounded square root.
\<close>

definition math_sqrt :: "int \<Rightarrow> py_error + real" where
  "math_sqrt i =
     (case float_of_int i of
        Inl e \<Rightarrow> Inl e
      | Inr y \<Rightarrow> if y < 0 then Inl ValueError else Inr (float_round (sqrt y)))"

section \<open>The ring count\<close>

text \<open>
  \<^verbatim>\<open>
  if numCells == 0:
      return 0
  nPinRings = int(math.ceil(0.5 * (1 + math.sqrt(1 + 4 * (numCells - 1) // 3))))
  return nPinRings
  \<close>
  The argument of the square root is the integer \<open>1 + ((4 * (numCells - 1)) div 3)\<close>;
  the sum and the product are float operations (the factor \<open>0.5\<close> is the float
  \<open>1 / 2\<close>), and \<^verbatim>\<open>math.ceil\<close> returns an integer.
\<close>

definition numRingsToHoldNumCells :: "int \<Rightarrow> py_error + int" where
  "numRingsToHoldNumCells numCells =
     (if numCells = 0 then Inr 0
      else case math_sqrt (1 + 4 * (numCells - 1) div 3) of
             Inl e \<Rightarrow> Inl e
           | Inr s \<Rightarrow> Inr \<lceil>float_round (1 / 2 * float_round (1 + s))\<rceil>)"

text \<open>
  The incremental definition the closed form stands for (the docstring: "This method
  works by incrementing ring numbers until the number of items is reached or
  exceeded"): the first ring, counting from \<open>r\<close>, whose hexagon holds \<open>n\<close> cells.
\<close>

function ringSearch :: "int \<Rightarrow> int \<Rightarrow> int" where
  "ringSearch r n = (if n \<le> totalPositionsUpToRing r then r else ringSearch (r + 1) n)"
  by pat_completeness auto
termination
proof (relation "measure (\<lambda>(r, n). nat (n - r))")
  show "wf (measure (\<lambda>(r, n). nat (n - r)))" by simp
next
  fix r n :: int
  assume a: "\<not> n \<le> totalPositionsUpToRing r"
  have "0 \<le> (3 * r - 1) * (r - 1)"
  proof (cases "1 \<le> r")
    case True
    then show ?thesis by simp
  next
    case False
    then have "3 * r - 1 \<le> 0" and "r - 1 \<le> 0" by simp_all
    then show ?thesis by (rule mult_nonpos_nonpos)
  qed
  then have "r \<le> totalPositionsUpToRing r"
    by (simp add: totalPositionsUpToRing_def algebra_simps)
  with a show "((r + 1, n), (r, n)) \<in> measure (\<lambda>(r, n). nat (n - r))" by simp
qed

definition ringsToHoldCount_incremental :: "int \<Rightarrow> int" where
  "ringsToHoldCount_incremental n = (if n = 0 then 0 else ringSearch 1 n)"

text \<open>The closed form in exact real arithmetic, used to state the rounding lemmas.\<close>

definition exact_rings :: "int \<Rightarrow> int" where
  "exact_rings n = \<lceil>(1 + sqrt (of_int (1 + 4 * (n - 1) div 3))) / 2\<rceil>"

section \<open>Rotation of one cell index\<close>

text \<open>
  \<^verbatim>\<open>
  if orientationNumber < 0 or orientationNumber > 5:
      raise ValueError(...)
  if initialCellIndex > 1:
      if orientationNumber == 0:
          return initialCellIndex
      ring = numRingsToHoldNumCells(initialCellIndex)
      tot_pins = totalPositionsUpToRing(ring)
      newPinLocation = initialCellIndex + (ring - 1) * orientationNumber
      if newPinLocation > tot_pins:
          newPinLocation -= (ring - 1) * 6
      return newPinLocation
  elif initialCellIndex == 1:
      return initialCellIndex
  raise ValueError(...)
  \<close>
  An exception of \<^verbatim>\<open>numRingsToHoldNumCells\<close> propagates.
\<close>

definition getIndexOfRotatedCell :: "int \<Rightarrow> int \<Rightarrow> py_error + int" where
  "getIndexOfRotatedCell initialCellIndex orientationNumber =
     (if orientationNumber < 0 \<or> orientationNumber > 5 then Inl ValueError
      else if initialCellIndex > 1 then
        (if orientationNumber = 0 then Inr initialCellIndex
         else case numRingsToHoldNumCells initialCellIndex of
                Inl e \<Rightarrow> Inl e
              | Inr ring \<Rightarrow>
                  (let tot_pins = totalPositionsUpToRing ring;
                       newPinLocation = initialCellIndex + (ring - 1) * orientationNumber
                   in Inr (if newPinLocation > tot_pins then newPinLocation - (ring - 1) * 6
                           else newPinLocation)))
      else if initialCellIndex = 1 then Inr initialCellIndex
      else Inl ValueError)"

section \<open>Rotation of a whole data container\<close>

text \<open>
  On a list, \<^verbatim>\<open>rotateHexCellData\<close> works through numpy: \<^verbatim>\<open>np.size\<close> and
  \<^verbatim>\<open>np.empty_like\<close> turn the list into an array, the entries are assigned to
  that array, and \<^verbatim>\<open>buffer.tolist()\<close> turns them back into Python objects.
  numpy is no part of the repository, and what the function needs of it is the
  parameter \<open>np\<close>:
  \<^item> \<open>np_converts np xs\<close>: numpy makes an array of the list \<open>xs\<close>. On a list it
    cannot convert (rows of different lengths) \<^verbatim>\<open>np.size\<close> raises
    \<^verbatim>\<open>ValueError\<close>.
  \<^item> \<open>np_stored np xs x\<close>: what \<^verbatim>\<open>tolist()\<close> gives back at a position of the
    buffer \<^verbatim>\<open>np.empty_like(xs)\<close> to which the entry \<open>x\<close> was assigned. A tuple comes
    back as a list, a number comes back in the common type of the array.

  A numpy array that is itself the data keeps its entries as they are: the buffer
  has its type, and the function returns the buffer.
\<close>

record 'a numpy =
  np_converts :: "'a list \<Rightarrow> bool"
  np_stored :: "'a list \<Rightarrow> 'a \<Rightarrow> 'a"

fun converts :: "'a numpy \<Rightarrow> 'a pydata \<Rightarrow> bool" where
  "converts np (PyList xs) = np_converts np xs"
| "converts np (NdArray xs) = True"
| "converts np (PyTuple xs) = True"

fun stored_as :: "'a numpy \<Rightarrow> 'a pydata \<Rightarrow> 'a \<Rightarrow> 'a" where
  "stored_as np (PyList xs) x = np_stored np xs x"
| "stored_as np (NdArray xs) x = x"
| "stored_as np (PyTuple xs) x = x"

text \<open>
  The data that come back as they went in: every numpy array, and every list that
  numpy converts and whose entries it gives back unchanged
  (\<^verbatim>\<open>np.array(data).tolist() == data\<close>, entry by entry).
\<close>

fun stored_unchanged :: "'a numpy \<Rightarrow> 'a pydata \<Rightarrow> bool" where
  "stored_unchanged np (PyList xs) =
     (np_converts np xs \<and> list_all (\<lambda>x. np_stored np xs x = x) xs)"
| "stored_unchanged np (NdArray xs) = True"
| "stored_unchanged np (PyTuple xs) = False"

text \<open>
  The entries of the examples: small integers, and tuples and lists of small
  integers. \<open>numpy_rows\<close> is numpy on lists of such entries: it converts a list
  whose entries are all numbers or all rows of one length, it gives a number back
  as it is, and it gives a tuple back as a list (\<^verbatim>\<open>np.array([(1, 2)]).tolist()\<close> is
  \<^verbatim>\<open>[[1, 2]]\<close>).
\<close>

datatype pyentry = PyNum int | PyTup "int list" | PyLst "int list"

fun row_width :: "pyentry \<Rightarrow> nat option" where
  "row_width (PyNum n) = None"
| "row_width (PyTup ys) = Some (length ys)"
| "row_width (PyLst ys) = Some (length ys)"

fun one_width :: "pyentry list \<Rightarrow> bool" where
  "one_width [] = True"
| "one_width (x # xs) = list_all (\<lambda>y. row_width y = row_width x) xs"

fun as_row :: "pyentry \<Rightarrow> pyentry" where
  "as_row (PyNum n) = PyNum n"
| "as_row (PyTup ys) = PyLst ys"
| "as_row (PyLst ys) = PyLst ys"

definition numpy_rows :: "pyentry numpy" where
  "numpy_rows = \<lparr>np_converts = one_width, np_stored = (\<lambda>xs. as_row)\<rparr>"

text \<open>
  A Python slice bound: a negative bound counts from the end, and every bound is
  clamped to the sequence. \<open>py_slice xs a b\<close> is \<^verbatim>\<open>xs[a:b]\<close>.
\<close>

definition py_bound :: "int \<Rightarrow> nat \<Rightarrow> nat" where
  "py_bound i n = (if i < 0 then nat (max (i + int n) 0) else min (nat i) n)"

definition py_slice :: "'a list \<Rightarrow> int \<Rightarrow> int \<Rightarrow> 'a list" where
  "py_slice xs a b =
     (let lo = py_bound a (length xs); hi = py_bound b (length xs)
      in take (hi - lo) (drop lo xs))"

text \<open>
  \<^verbatim>\<open>buffer[a:b] = vs\<close> on a numpy array: the values replace the entries of the
  slice; a single value is broadcast over the slice; any other length is numpy's
  \<^verbatim>\<open>ValueError\<close>.
\<close>

definition slice_assign :: "'a list \<Rightarrow> int \<Rightarrow> int \<Rightarrow> 'a list \<Rightarrow> py_error + 'a list" where
  "slice_assign buffer a b vs =
     (let lo = py_bound a (length buffer); hi = py_bound b (length buffer); k = hi - lo
      in if length vs = k then Inr (take lo buffer @ vs @ drop (lo + k) buffer)
         else if length vs = 1 then Inr (take lo buffer @ replicate k (hd vs) @ drop (lo + k) buffer)
         else Inl ValueError)"

text \<open>
  Modelled from the spec: \<^verbatim>\<open>armi.utils.iterables.pivot\<close>, which
  \<^verbatim>\<open>rotateHexCellData\<close> calls and whose source is not part of the files at hand.
  The specification's glossary has "Pivot / cyclic shift: reordering a fixed-length
  sequence by rotating its elements circularly by a given offset", and its scenario
  fixes the direction: the shift by \<open>-1\<close> of \<open>[0, 10, 20, 30, 40, 50]\<close> is
  \<open>[50, 0, 10, 20, 30, 40]\<close>. So \<open>pivot xs p\<close> starts at position \<open>p\<close> of \<open>xs\<close>,
  positions counted circularly.
\<close>

definition pivot :: "'a list \<Rightarrow> int \<Rightarrow> 'a list" where
  "pivot xs p = rotate (nat (p mod int (length xs))) xs"

text \<open>
  The body of the loop \<^verbatim>\<open>for ring in range(2, nRings + 1)\<close>, run over the list of
  the rings; the state is the buffer and \<^verbatim>\<open>ringPosStart\<close>. The assignment to the
  buffer stores each entry as \<open>store\<close> says (\<open>stored_as np data\<close> below).
  \<^verbatim>\<open>
  pinsPerRing = numPositionsInRing(ring)
  pinsPerEdge = pinsPerRing // 6
  ringPosEnd = ringPosStart + pinsPerRing
  window = slice(ringPosStart, ringPosEnd)
  ringData = data[window]
  rotatedRingData = iterables.pivot(ringData, -(nRotations * pinsPerEdge))
  buffer[window] = rotatedRingData
  ringPosStart = ringPosEnd
  \<close>
\<close>

fun rotate_rings ::
  "('a \<Rightarrow> 'a) \<Rightarrow> 'a list \<Rightarrow> int \<Rightarrow> int list \<Rightarrow> 'a list \<times> int
     \<Rightarrow> py_error + 'a list \<times> int" where
  "rotate_rings store data nRotations [] state = Inr state"
| "rotate_rings store data nRotations (ring # rings) (buffer, ringPosStart) =
     (let pinsPerRing = numPositionsInRing ring;
          pinsPerEdge = pinsPerRing div 6;
          ringPosEnd = ringPosStart + pinsPerRing;
          ringData = py_slice data ringPosStart ringPosEnd;
          rotatedRingData = pivot ringData (- (nRotations * pinsPerEdge))
      in case slice_assign buffer ringPosStart ringPosEnd (map store rotatedRingData) of
           Inl e \<Rightarrow> Inl e
         | Inr buffer' \<Rightarrow> rotate_rings store data nRotations rings (buffer', ringPosEnd))"

text \<open>
  \<^verbatim>\<open>
  if not isinstance(data, (list, np.ndarray)):
      raise TypeError(f"{data=}")
  if np.size(data, axis=0) != cells:
      raise ValueError(f"{len(data)=} != {cells}")
  buffer = np.empty_like(data)
  buffer[0] = data[0]
  nRings = numRingsToHoldNumCells(cells)
  ringPosStart = 1
  for ring in range(2, nRings + 1): ...
  if isinstance(data, np.ndarray):
      return buffer
  return buffer.tolist()
  \<close>
  \<^verbatim>\<open>np.size\<close> raises \<^verbatim>\<open>ValueError\<close> on a list that numpy cannot convert, and
  gives the length along the first dimension otherwise. \<^verbatim>\<open>np.empty_like\<close> returns
  memory that is not initialised: the argument \<open>uninit\<close> gives the entry found at
  each position of the fresh buffer, and the theorems hold for every \<open>uninit\<close>.

  The result is a pair: the caller's \<open>data\<close> as the call leaves it, and the outcome
  of the call. No statement of the function assigns to \<open>data\<close> or to a part of it
  (its slices are read, and every assignment goes to the fresh buffer), so the first
  component is \<open>data\<close> on every path, the failing ones included.
\<close>

definition rotateHexCellData ::
  "'a numpy \<Rightarrow> (nat \<Rightarrow> 'a) \<Rightarrow> 'a pydata \<Rightarrow> int \<Rightarrow> int
     \<Rightarrow> 'a pydata \<times> (py_error + 'a pydata)" where
  "rotateHexCellData np uninit data cells nRotations =
     (data,
      if \<not> is_list_or_ndarray data then Inl TypeError
      else if \<not> converts np data then Inl ValueError
      else if int (length (entries data)) \<noteq> cells then Inl ValueError
      else if entries data = [] then Inl IndexError
      else
        (let store = stored_as np data;
             buffer = (map uninit [0..<length (entries data)])[0 := store (entries data ! 0)]
         in case numRingsToHoldNumCells cells of
              Inl e \<Rightarrow> Inl e
            | Inr nRings \<Rightarrow>
                (case rotate_rings store (entries data) nRotations [2..nRings] (buffer, 1) of
                   Inl e \<Rightarrow> Inl e
                 | Inr (buffer', ringPosStart) \<Rightarrow> Inr (same_kind data buffer'))))"

text \<open>
  What the loop has written after the rings up to \<open>k + 1\<close> (the ring with \<open>k\<close>
  positions on an edge): the centre, then ring after ring the pivoted slice.
\<close>

fun rotated_prefix :: "'a list \<Rightarrow> int \<Rightarrow> nat \<Rightarrow> 'a list" where
  "rotated_prefix data s 0 = take 1 data"
| "rotated_prefix data s (Suc k) =
     rotated_prefix data s k
       @ pivot (take (6 * Suc k) (drop (1 + 3 * k * Suc k) data)) (- (s * int (Suc k)))"

text \<open>
  The number of cells in the rings up to \<open>k + 1\<close>, as a natural number: the length of
  that prefix.
\<close>

definition ring_total :: "nat \<Rightarrow> nat" where
  "ring_total k = 1 + 3 * k * Suc k"

section \<open>Rounding lemmas\<close>

lemma rhe_bounds: "of_int (round_half_even x) \<le> x + 1/2" "x - 1/2 \<le> of_int (round_half_even x)"
  unfolding round_half_even_def Let_def by (auto; linarith)+

lemma rhe_floor: "\<lfloor>x\<rfloor> \<le> round_half_even x" "round_half_even x \<le> \<lceil>x\<rceil>"
  unfolding round_half_even_def Let_def by (auto simp: ceiling_def; linarith)+

lemma rhe_eq:
  assumes "\<bar>x - of_int k\<bar> < 1/2"
  shows "round_half_even x = k"
proof -
  have "\<lfloor>x\<rfloor> = k \<or> \<lfloor>x\<rfloor> = k - 1" using assms by linarith
  then show ?thesis
  proof
    assume h: "\<lfloor>x\<rfloor> = k"
    then have "x - of_int \<lfloor>x\<rfloor> < 1/2" using assms by linarith
    then show ?thesis by (simp add: round_half_even_def Let_def h)
  next
    assume h: "\<lfloor>x\<rfloor> = k - 1"
    then have "1/2 < x - of_int \<lfloor>x\<rfloor>" using assms by linarith
    then show ?thesis by (simp add: round_half_even_def Let_def h)
  qed
qed

lemma floor_log2_iff:
  assumes "0 < x"
  shows "\<lfloor>log 2 x\<rfloor> = e \<longleftrightarrow> 2 powi e \<le> x \<and> x < 2 powi (e + 1)"
proof -
  have a: "(2::real) powr real_of_int e = 2 powi e"
    by (rule powr_real_of_int') simp_all
  have c: "(2::real) powr real_of_int (e + 1) = 2 powi (e + 1)"
    by (rule powr_real_of_int') simp_all
  then have b: "(2::real) powr (real_of_int e + 1) = 2 powi (e + 1)"
    by simp
  have "\<lfloor>log 2 x\<rfloor> = e \<longleftrightarrow> 2 powr real_of_int e \<le> x \<and> x < 2 powr real_of_int (e + 1)"
    using floor_log_eq_powr_iff [of x 2 e] assms by simp
  then show ?thesis
    unfolding a c .
qed


lemma float_ulp_pos: "0 < float_ulp x"
  by (simp add: float_ulp_def)

lemma float_round_binade:
  assumes "2 powi e \<le> x" "x < 2 powi (e + 1)" "- 1022 \<le> e"
  shows "float_round x = of_int (round_half_even (x / 2 powi (e - 52))) * 2 powi (e - 52)"
proof -
  have "(0::real) < 2 powi e" by simp
  then have x: "0 < x" using assms(1) by linarith
  then have "\<lfloor>log 2 \<bar>x\<bar>\<rfloor> = e" using assms by (simp add: floor_log2_iff)
  then have "float_ulp x = 2 powi (e - 52)" using assms(3) by (simp add: float_ulp_def)
  then show ?thesis using x by (simp add: float_round_def)
qed

lemma binade_exists:
  assumes "1 \<le> (x::real)"
  obtains e :: int where "0 \<le> e" "2 powi e \<le> x" "x < 2 powi (e + 1)"
proof -
  define e where "e = \<lfloor>log 2 x\<rfloor>"
  have x: "0 < x" using assms by simp
  have b: "2 powi e \<le> x \<and> x < 2 powi (e + 1)"
    using floor_log2_iff [OF x, of e] by (simp add: e_def)
  have "0 \<le> log 2 x" using assms by simp
  then have "0 \<le> e" by (simp add: e_def)
  with b that show thesis by blast
qed

lemma powi_scale_int:
  assumes "g \<le> (f::int)"
  shows "of_int j * 2 powi f / 2 powi g = (of_int (j * 2 ^ nat (f - g)) :: real)"
proof -
  have "(2::real) powi f = 2 powi (f - g) * 2 powi g"
    by (simp flip: power_int_add)
  moreover have "(2::real) powi (f - g) = 2 ^ nat (f - g)"
    using assms by (simp add: power_int_nonneg_exp)
  ultimately show ?thesis by simp
qed

lemma float_round_ge:
  assumes x: "1 \<le> x" and v: "v = of_int j * 2 powi f" and j: "j < 2 ^ 53" and le: "v \<le> x"
  shows "v \<le> float_round x"
proof -
  obtain e :: int where e: "0 \<le> e" "2 powi e \<le> x" "x < 2 powi (e + 1)"
    using binade_exists [OF x] by blast
  define u :: real where "u = 2 powi (e - 52)"
  have u: "0 < u" by (simp add: u_def)
  have fr: "float_round x = of_int (round_half_even (x / u)) * u"
    unfolding u_def using e by (intro float_round_binade) simp_all
  show ?thesis
  proof (cases "e - 52 \<le> f")
    case True
    define K where "K = j * 2 ^ nat (f - (e - 52))"
    have K: "v / u = of_int K"
      unfolding v u_def K_def by (rule powi_scale_int [OF True])
    have "of_int K \<le> x / u" using le u K by (simp add: divide_right_mono flip: K)
    then have "K \<le> \<lfloor>x / u\<rfloor>" by (simp add: le_floor_iff)
    then have "K \<le> round_half_even (x / u)" using rhe_floor(1) [of "x / u"] by linarith
    then have "of_int K * u \<le> of_int (round_half_even (x / u)) * u"
      using u by (simp add: mult_right_mono)
    moreover have "of_int K * u = v" using K u by (simp add: field_simps)
    ultimately show ?thesis using fr by simp
  next
    case False
    then have f: "f \<le> e - 53" by simp
    have "v \<le> 2 ^ 53 * 2 powi f"
      unfolding v using j by (intro mult_right_mono) (simp_all add: of_int_le_iff [of j "2 ^ 53", simplified])
    also have "\<dots> \<le> 2 ^ 53 * 2 powi (e - 53)"
      using f by (intro mult_left_mono power_int_increasing) simp_all
    also have "\<dots> = 2 powi e"
      by (simp add: power_int_diff)
    finally have ve: "v \<le> 2 powi e" .
    have "x / u = x * 2 powi (52 - e)" by (simp add: u_def power_int_diff field_simps)
    have "2 powi e / u = (2::real) ^ 52"
      by (simp add: u_def power_int_diff)
    then have "(2::real) ^ 52 \<le> x / u" using e(2) u by (metis divide_right_mono less_imp_le)
    then have "(2::int) ^ 52 \<le> \<lfloor>x / u\<rfloor>" by (simp add: le_floor_iff)
    then have "(2::int) ^ 52 \<le> round_half_even (x / u)" using rhe_floor(1) [of "x / u"] by linarith
    then have "(2::real) ^ 52 \<le> of_int (round_half_even (x / u))"
      by (metis of_int_le_iff of_int_numeral of_int_power)
    then have "2 ^ 52 * u \<le> of_int (round_half_even (x / u)) * u"
      using u by (simp add: mult_right_mono)
    moreover have "2 ^ 52 * u = 2 powi e" by (simp add: u_def power_int_diff)
    ultimately show ?thesis using fr ve by simp
  qed
qed


lemma float_round_le:
  assumes x: "1 \<le> x" and v: "v = of_int j * 2 powi f" and j: "j < 2 ^ 53" and le: "x \<le> v"
  shows "float_round x \<le> v"
proof -
  obtain e :: int where e: "0 \<le> e" "2 powi e \<le> x" "x < 2 powi (e + 1)"
    using binade_exists [OF x] by blast
  define u :: real where "u = 2 powi (e - 52)"
  have u: "0 < u" by (simp add: u_def)
  have fr: "float_round x = of_int (round_half_even (x / u)) * u"
    unfolding u_def using e by (intro float_round_binade) simp_all
  show ?thesis
  proof (cases "e - 52 \<le> f")
    case True
    define K where "K = j * 2 ^ nat (f - (e - 52))"
    have K: "v / u = of_int K"
      unfolding v u_def K_def by (rule powi_scale_int [OF True])
    have "x / u \<le> of_int K" using le u K by (simp add: divide_right_mono flip: K)
    then have "\<lceil>x / u\<rceil> \<le> K" by (simp add: ceiling_le_iff)
    then have "round_half_even (x / u) \<le> K" using rhe_floor(2) [of "x / u"] by linarith
    then have "of_int (round_half_even (x / u)) * u \<le> of_int K * u"
      using u by (simp add: mult_right_mono)
    moreover have "of_int K * u = v" using K u by (simp add: field_simps)
    ultimately show ?thesis using fr by simp
  next
    case False
    then have f: "f \<le> e - 53" by simp
    have "real_of_int j < 2 ^ 53"
      using j by (simp add: of_int_less_iff [of j "2 ^ 53", simplified])
    then have "v < 2 ^ 53 * 2 powi f"
      unfolding v by (intro mult_strict_right_mono) simp_all
    also have "\<dots> \<le> 2 ^ 53 * 2 powi (e - 53)"
      using f by (intro mult_left_mono power_int_increasing) simp_all
    also have "\<dots> = 2 powi e"
      by (simp add: power_int_diff)
    finally have "v < x" using e(2) by linarith
    then show ?thesis using le by simp
  qed
qed

lemma float_round_exact:
  assumes "1 \<le> v" "v = of_int j * 2 powi f" "j < 2 ^ 53"
  shows "float_round v = v"
  using float_round_le [OF assms(1) assms(2) assms(3)] float_round_ge [OF assms(1) assms(2) assms(3)]
  by simp

lemma float_round_of_int:
  assumes "1 \<le> j" "j < 2 ^ 53"
  shows "float_round (of_int j) = of_int j"
  using assms by (intro float_round_exact [where j = j and f = 0]) simp_all

lemma float_round_nearest:
  assumes "2 powi e \<le> x" "x < 2 powi (e + 1)" "- 1022 \<le> e"
    and "\<bar>x / 2 powi (e - 52) - of_int k\<bar> < 1 / 2"
  shows "float_round x = of_int k * 2 powi (e - 52)"
  using float_round_binade [OF assms(1,2,3)] rhe_eq [OF assms(4)] by simp

lemma float_round_error:
  assumes "2 powi E \<le> x" "x < 2 powi (E + 1)" "- 1022 \<le> E"
  shows "\<bar>float_round x - x\<bar> \<le> 2 powi (E - 53)"
proof -
  define U :: real where "U = 2 powi (E - 52)"
  define t where "t = x / U"
  have U: "0 < U" by (simp add: U_def)
  have fr: "float_round x = of_int (round_half_even t) * U"
    unfolding t_def U_def by (rule float_round_binade [OF assms])
  have x: "x = t * U" using U by (simp add: t_def)
  have "\<bar>of_int (round_half_even t) - t\<bar> \<le> 1 / 2"
    using rhe_bounds [of t] by linarith
  then have "\<bar>of_int (round_half_even t) - t\<bar> * U \<le> 1 / 2 * U"
    using U by (intro mult_right_mono) simp_all
  moreover have "float_round x - x = (of_int (round_half_even t) - t) * U"
    unfolding fr using U by (simp add: t_def left_diff_distrib)
  then have "\<bar>of_int (round_half_even t) - t\<bar> * U = \<bar>float_round x - x\<bar>"
    using U by (simp add: abs_mult)
  moreover have "1 / 2 * U = 2 powi (E - 53)"
    by (simp add: U_def power_int_diff)
  ultimately show ?thesis by simp
qed

lemma sqrt_round_square:
  fixes x :: int
  assumes x1: "1 \<le> x" and x2: "x < 2 ^ 53"
  defines "M \<equiv> float_round (of_int (x\<^sup>2))"
  shows "float_round (sqrt M) = of_int x" and "0 < M" and "M < 2 ^ 108"
proof -
  define xr where "xr = real_of_int x"
  have xr1: "1 \<le> xr" using x1 by (simp add: xr_def)
  have xr2: "xr < 2 ^ 53"
    using x2 by (simp add: xr_def of_int_less_iff [of x "2 ^ 53", simplified])
  obtain e :: int where e: "0 \<le> e" "2 powi e \<le> xr" "xr < 2 powi (e + 1)"
    using binade_exists [OF xr1] by blast
  have "(2::real) powi e < 2 powi 53" using e(2) xr2 by simp
  then have e53: "e < 53" by (rule power_int_le_imp_less_exp [rotated]) simp_all
  define u :: real where "u = 2 powi (e - 52)"
  define p :: real where "p = 2 powi e"
  have u0: "0 < u" by (simp add: u_def)
  have "u \<le> 2 powi 0" unfolding u_def using e53 by (intro power_int_increasing) simp_all
  then have u1: "u \<le> 1" by simp
  have p1: "1 \<le> p" unfolding p_def using e(1) by simp
  have pu: "p * u = 2 powi (2 * e - 52)"
    by (simp add: p_def u_def flip: power_int_add)
  define m where "m = xr\<^sup>2"
  have m_eq: "real_of_int (x\<^sup>2) = m" by (simp add: m_def xr_def)
  have m1: "1 \<le> m" using xr1 by (simp add: m_def)
  have M_def': "M = float_round m" by (simp add: M_def m_def xr_def)
  obtain E :: int where E: "0 \<le> E" "2 powi E \<le> m" "m < 2 powi (E + 1)"
    using binade_exists [OF m1] by blast
  have "m < (2 powi (e + 1))\<^sup>2"
    unfolding m_def using e(3) xr1 by (intro power_strict_mono) simp_all
  also have "\<dots> = (2::real) powi (2 * e + 2)"
    by (simp add: power2_eq_square flip: power_int_add)
  finally have "(2::real) powi E < 2 powi (2 * e + 2)" using E(2) by simp
  then have "E < 2 * e + 2" using e(1) by (intro power_int_le_imp_less_exp [of "2::real"]) simp_all
  then have "(2::real) powi (E - 53) \<le> 2 powi (2 * e - 52)"
    by (intro power_int_increasing) simp_all
  then have err: "\<bar>M - m\<bar> \<le> p * u"
    using float_round_error [OF E(2,3)] E(1) by (simp add: M_def' pu)
  have "m < (2 ^ 53)\<^sup>2" unfolding m_def using xr2 xr1 by (intro power_strict_mono) simp_all
  moreover have "p * u \<le> m"
  proof -
    have "p * u \<le> p * 1" using u1 p1 by (intro mult_left_mono) simp_all
    also have "\<dots> \<le> xr * xr" using e(2) xr1 p1 unfolding p_def by (intro mult_mono) simp_all
    finally show ?thesis by (simp add: m_def power2_eq_square)
  qed
  ultimately have "M < 2 * (2 ^ 53)\<^sup>2" using err by linarith
  then show "M < 2 ^ 108" by simp
  show conc: "float_round (sqrt M) = of_int x" and "0 < M"
  proof -
    have "float_round (sqrt M) = of_int x \<and> 0 < M"
    proof (cases "xr = p")
      case True
      have "m = of_int 1 * 2 powi (2 * e)"
        by (simp add: m_def True p_def power2_eq_square flip: power_int_add)
      then have "M = m" unfolding M_def' using m1
        by (intro float_round_exact [where j = 1 and f = "2 * e"]) simp_all
      moreover have "sqrt m = xr" unfolding m_def using xr1 by simp
      moreover have "float_round xr = xr"
        unfolding xr_def using x1 x2 by (rule float_round_of_int)
      ultimately show ?thesis using m1 by (simp add: xr_def)
    next
      case False
      have "p = real_of_int (2 ^ nat e)"
        using e(1) by (simp add: p_def power_int_nonneg_exp)
      moreover have "real_of_int (2 ^ nat e) < real_of_int x"
        using False e(2) calculation by (simp add: xr_def p_def)
      then have "2 ^ nat e + 1 \<le> x" by simp
      then have "real_of_int (2 ^ nat e + 1) \<le> real_of_int x" by (simp only: of_int_le_iff)
      ultimately have px: "p + 1 \<le> xr" by (simp add: xr_def)
      have "2 powi (e + 1) = real_of_int (2 ^ nat (e + 1))"
        using e(1) by (simp add: power_int_nonneg_exp)
      then have "real_of_int x < real_of_int (2 ^ nat (e + 1))"
        using e(3) by (simp add: xr_def)
      then have "x + 1 \<le> 2 ^ nat (e + 1)" by simp
      then have "real_of_int (x + 1) \<le> real_of_int (2 ^ nat (e + 1))" by (simp only: of_int_le_iff)
      then have xp: "xr + 1 \<le> 2 powi (e + 1)"
        using e(1) by (simp add: xr_def power_int_nonneg_exp)
      have hi: "M < (xr + u / 2)\<^sup>2"
      proof -
        have "p * u \<le> xr * u" using px u0 by (intro mult_right_mono) simp_all
        moreover have "(xr + u / 2)\<^sup>2 = m + xr * u + u\<^sup>2 / 4"
          by (simp add: m_def power2_eq_square algebra_simps)
        moreover have "0 < u\<^sup>2 / 4" using u0 by simp
        ultimately show ?thesis using err by linarith
      qed
      have lo: "(xr - u / 2)\<^sup>2 < M"
      proof -
        have "(p + 1) * u \<le> xr * u" using px u0 by (intro mult_right_mono) simp_all
        then have "p * u + u \<le> xr * u" by (simp add: algebra_simps)
        moreover have "(xr - u / 2)\<^sup>2 = m - xr * u + u\<^sup>2 / 4"
          by (simp add: m_def power2_eq_square algebra_simps)
        moreover have "u\<^sup>2 / 4 < u"
        proof -
          have "u * u \<le> 1 * u" using u0 u1 by (intro mult_right_mono) simp_all
          then show ?thesis using u0 by (simp add: power2_eq_square)
        qed
        ultimately show ?thesis using err by linarith
      qed
      have xu: "0 \<le> xr - u / 2" using xr1 u1 by simp
      have M0: "0 < M" 
      proof -
        have "0 \<le> (xr - u / 2)\<^sup>2" by simp
        then show ?thesis using lo by linarith
      qed
      define y where "y = sqrt M"
      have y_lo: "xr - u / 2 < y"
        unfolding y_def using lo by (rule real_less_rsqrt)
      have y_hi: "y < xr + u / 2"
        unfolding y_def using hi xr1 u0 by (intro real_less_lsqrt) simp_all
      have b1: "2 powi e \<le> y" using y_lo px u1 by (simp add: p_def)
      have b2: "y < 2 powi (e + 1)" using y_hi xp u1 by simp
      define X where "X = x * 2 ^ nat (0 - (e - 52))"
      have X: "xr / u = of_int X"
        using powi_scale_int [of "e - 52" 0 x] e53 by (simp add: xr_def u_def X_def)
      have "\<bar>y - xr\<bar> < u / 2" using y_lo y_hi by linarith
      then have "\<bar>y - xr\<bar> / u < 1 / 2" using u0 by (simp add: field_simps)
      moreover have "\<bar>y - xr\<bar> / u = \<bar>y / u - xr / u\<bar>"
        using u0 by (simp add: diff_divide_distrib [symmetric])
      ultimately have "\<bar>y / u - of_int X\<bar> < 1 / 2"
        by (simp only: X)
      then have "\<bar>y / 2 powi (e - 52) - of_int X\<bar> < 1 / 2"
        by (simp only: u_def)
      from float_round_nearest [OF b1 b2 _ this] e(1)
      have "float_round y = of_int X * u" by (simp add: u_def)
      also have "\<dots> = xr" using X u0 by (simp add: field_simps)
      finally show ?thesis using M0 by (simp add: y_def xr_def)
    qed
    then show "float_round (sqrt M) = of_int x" and "0 < M" by simp_all
  qed
qed

section \<open>The closed form in exact arithmetic and in floats\<close>

lemma div3_iff:
  fixes N q :: int
  shows "4 * N div 3 \<le> 4 * q \<longleftrightarrow> N \<le> 3 * q"
  by linarith

lemma exact_rings_iff:
  assumes n: "1 \<le> n" and r: "1 \<le> r"
  shows "n \<le> totalPositionsUpToRing r \<longleftrightarrow> exact_rings n \<le> r"
proof -
  define m where "m = 1 + 4 * (n - 1) div 3"
  have m: "1 \<le> m" using n by (simp add: m_def)
  have "n \<le> totalPositionsUpToRing r \<longleftrightarrow> n - 1 \<le> 3 * (r * (r - 1))"
    by (simp add: totalPositionsUpToRing_def algebra_simps)
  also have "\<dots> \<longleftrightarrow> 4 * (n - 1) div 3 \<le> 4 * (r * (r - 1))"
    by (rule div3_iff [symmetric])
  also have "\<dots> \<longleftrightarrow> m \<le> (2 * r - 1)\<^sup>2"
    by (simp add: m_def power2_eq_square algebra_simps)
  also have "\<dots> \<longleftrightarrow> real_of_int m \<le> (real_of_int (2 * r - 1))\<^sup>2"
    by (metis of_int_le_iff of_int_power)
  also have "\<dots> \<longleftrightarrow> sqrt (real_of_int m) \<le> real_of_int (2 * r - 1)"
    using r real_le_lsqrt [of "real_of_int (2 * r - 1)" "real_of_int m"]
      sqrt_le_D [of "real_of_int m" "real_of_int (2 * r - 1)"] by auto
  also have "\<dots> \<longleftrightarrow> (1 + sqrt (real_of_int m)) / 2 \<le> real_of_int r"
    by (simp add: field_simps)
  also have "\<dots> \<longleftrightarrow> exact_rings n \<le> r"
    by (simp add: exact_rings_def m_def ceiling_le_iff)
  finally show ?thesis .
qed


lemma float_of_int_exact:
  assumes "1 \<le> m" "m < 2 ^ 53"
  shows "float_of_int m = Inr (of_int m)"
proof -
  have "real_of_int m < 2 ^ 53"
    using assms(2) by (simp add: of_int_less_iff [of m "2 ^ 53", simplified])
  also have "\<dots> < (2::real) ^ 1024" by (rule power_strict_increasing) simp_all
  finally have "\<bar>real_of_int m\<bar> < 2 ^ 1024" using assms(1) by simp
  then show ?thesis
    using float_round_of_int [OF assms] by (simp add: float_of_int_def)
qed

lemma math_sqrt_exact_arg:
  assumes "1 \<le> m" "m < 2 ^ 53"
  shows "math_sqrt m = Inr (float_round (sqrt (of_int m)))"
  using assms by (simp add: math_sqrt_def float_of_int_exact)

lemma float_round_le_int:
  assumes "1 \<le> x" "x \<le> of_int j" "j < 2 ^ 53"
  shows "float_round x \<le> of_int j"
  using assms by (intro float_round_le [where j = j and f = 0]) simp_all

lemma float_round_ge_int:
  assumes "1 \<le> x" "of_int j \<le> x" "j < 2 ^ 53"
  shows "of_int j \<le> float_round x"
  using assms by (intro float_round_ge [where j = j and f = 0]) simp_all

lemma numRings_float_exact:
  assumes n1: "1 \<le> n" and n2: "n \<le> 3377699619864577"
  shows "numRingsToHoldNumCells n = Inr (exact_rings n)"
proof -
  define m where "m = 1 + 4 * (n - 1) div 3"
  define y where "y = sqrt (real_of_int m)"
  define c where "c = exact_rings n"
  define k where "k = 2 * c - 3"
  define s where "s = float_round y"
  define a where "a = float_round (1 + s)"
  define h where "h = float_round (1 / 2 * a)"
  have m1: "1 \<le> m" using n1 by (simp add: m_def)
  have m2: "m \<le> 4503599493152769" using n2 by (simp add: m_def)
  have y1: "1 \<le> y" using m1 by (simp add: y_def)
  have "real_of_int m \<le> 67108863\<^sup>2" using m2 by simp
  then have y2: "y \<le> 67108863" unfolding y_def by (intro real_le_lsqrt) simp_all
  have c_def': "c = \<lceil>(1 + y) / 2\<rceil>" by (simp add: c_def exact_rings_def y_def m_def)
  have cu: "(1 + y) / 2 \<le> of_int c" unfolding c_def' by (rule le_of_int_ceiling)
  have cl: "of_int c - 1 < (1 + y) / 2" unfolding c_def' by linarith
  have c_le: "c \<le> 33554432"
  proof -
    have "(1 + y) / 2 \<le> 33554432" using y2 by simp
    then show ?thesis unfolding c_def' by linarith
  qed
  have c_ge: "1 \<le> c"
  proof -
    have "0 < (1 + y) / 2" using y1 by simp
    then show ?thesis unfolding c_def' by linarith
  qed
  have ky: "of_int k < y" using cl by (simp add: k_def)
  have yk: "y \<le> of_int (2 * c - 1)" using cu by simp
  have k_le: "k \<le> 67108861" using c_le by (simp add: k_def)
  \<comment> \<open>upper chain\<close>
  have s_le: "s \<le> of_int (2 * c - 1)"
    unfolding s_def using c_le by (intro float_round_le_int [OF y1 yk]) simp
  have s_ge1: "1 \<le> s"
    unfolding s_def using float_round_ge_int [OF y1, of 1] y1 by simp
  have as1: "1 \<le> 1 + s" using s_ge1 by simp
  have "1 + s \<le> of_int (2 * c)" using s_le by simp
  then have a_le: "a \<le> of_int (2 * c)"
    unfolding a_def using c_le by (intro float_round_le_int [OF as1]) simp_all
  have "of_int 2 \<le> 1 + s" using s_ge1 by simp
  then have a_ge2: "2 \<le> a"
    unfolding a_def using float_round_ge_int [OF as1, of 2] by simp
  have ha1: "1 \<le> 1 / 2 * a" using a_ge2 by simp
  have "1 / 2 * a \<le> of_int c" using a_le by simp
  then have h_le: "h \<le> of_int c"
    unfolding h_def using c_le by (intro float_round_le_int [OF ha1]) simp_all
  \<comment> \<open>lower chain\<close>
  define lo :: real where "lo = of_int (k * 2 ^ 27 + 1) * 2 powi (- 27)"
  have lo_eq: "lo = of_int k + 1 / 2 ^ 27" by (simp add: lo_def field_simps)
  have lo_y: "lo \<le> y"
  proof (cases "0 \<le> k")
    case False
    then have "of_int k \<le> (- 1 :: real)" by linarith
    then show ?thesis using y1 by (simp add: lo_eq)
  next
    case True
    have "(real_of_int k)\<^sup>2 < real_of_int m"
      using ky True unfolding y_def
      by (metis of_int_0_le_iff real_less_lsqrt sqrt_le_D not_le of_int_power
          real_sqrt_le_mono real_sqrt_abs abs_of_nonneg)
    then have "k\<^sup>2 < m" by (metis of_int_less_iff of_int_power)
    then have "k\<^sup>2 + 1 \<le> m" by simp
    then have km: "(real_of_int k)\<^sup>2 + 1 \<le> real_of_int m"
      by (metis of_int_le_iff of_int_power of_int_add of_int_1)
    have "real_of_int k \<le> 67108861" using k_le by linarith
    then have "real_of_int k / 2 ^ 26 + 1 / 2 ^ 54 \<le> 1" by simp
    moreover have "lo\<^sup>2 = (real_of_int k)\<^sup>2 + (real_of_int k / 2 ^ 26 + 1 / 2 ^ 54)"
      by (simp add: lo_eq power2_eq_square algebra_simps)
    ultimately have "lo\<^sup>2 \<le> real_of_int m" using km by linarith
    then show ?thesis unfolding y_def by (rule real_le_rsqrt)
  qed
  have s_ge: "lo \<le> s"
    unfolding s_def using k_le by (intro float_round_ge [OF y1 lo_def _ lo_y]) simp
  define lo1 :: real where "lo1 = of_int ((k + 1) * 2 ^ 27 + 1) * 2 powi (- 27)"
  have lo1_eq: "lo1 = 1 + lo" by (simp add: lo1_def lo_eq field_simps)
  have "lo1 \<le> 1 + s" using s_ge by (simp add: lo1_eq)
  then have a_ge: "lo1 \<le> a"
    unfolding a_def using k_le by (intro float_round_ge [OF as1 lo1_def]) simp_all
  define lo2 :: real where "lo2 = of_int ((k + 1) * 2 ^ 27 + 1) * 2 powi (- 28)"
  have lo2_eq: "lo2 = lo1 / 2" by (simp add: lo1_def lo2_def field_simps)
  have "lo2 \<le> 1 / 2 * a" using a_ge by (simp add: lo2_eq)
  then have h_ge: "lo2 \<le> h"
    unfolding h_def using k_le by (intro float_round_ge [OF ha1 lo2_def]) simp_all
  have "lo2 = of_int c - 1 + 1 / 2 ^ 28"
    by (simp add: lo2_eq lo1_eq lo_eq k_def field_simps)
  then have h_gt: "of_int (c - 1) < h" using h_ge by simp
  have hc: "\<lceil>h\<rceil> = c"
    using h_gt h_le by (intro ceiling_unique) simp_all
  have ms: "math_sqrt m = Inr s"
    unfolding s_def y_def using m1 m2 by (intro math_sqrt_exact_arg) simp_all
  have n0: "n \<noteq> 0" using n1 by simp
  show ?thesis
    unfolding numRingsToHoldNumCells_def
    by (simp only: n0 if_False m_def [symmetric] ms sum.case a_def [symmetric]
        h_def [symmetric] hc c_def)
qed

lemma sqrt_round_cex:
  "float_round (sqrt 4503599493152770) = 9007199120523265 / 134217728"
proof -
  define y :: real where "y = sqrt 4503599493152770"
  have lo: "(9007199120523265 - 1 / 2) / 134217728 < y"
    unfolding y_def by (rule real_less_rsqrt) (simp add: power2_eq_square)
  have hi: "y < (9007199120523265 + 1 / 2) / 134217728"
    unfolding y_def by (rule real_less_lsqrt) (simp_all add: power2_eq_square)
  have b1: "2 powi 25 \<le> y" using lo by simp
  have b2: "y < 2 powi (25 + 1)" using hi by simp
  have "y / 2 powi (25 - 52) = y * 134217728" by simp
  moreover have "9007199120523265 - 1 / 2 < y * 134217728" using lo by simp
  moreover have "y * 134217728 < 9007199120523265 + 1 / 2" using hi by simp
  ultimately have "\<bar>y / 2 powi (25 - 52) - of_int 9007199120523265\<bar> < 1 / 2"
    by (simp only: of_int_numeral)
  from float_round_nearest [OF b1 b2 _ this] show ?thesis
    by (simp add: y_def)
qed

lemma numRings_first_failure: "numRingsToHoldNumCells 3377699619864578 = Inr 33554432"
proof -
  have a: "float_round (9007199254740993 / 134217728) = 67108864"
    using float_round_binade [of 26 "9007199254740993 / 134217728"]
    by (simp add: round_half_even_def Let_def)
  have h: "float_round 33554432 = 33554432"
    using float_round_of_int [of 33554432] by simp
  have "math_sqrt 4503599493152770 = Inr (9007199120523265 / 134217728)"
    using math_sqrt_exact_arg [of 4503599493152770] by (simp add: sqrt_round_cex)
  then show ?thesis
    by (simp add: numRingsToHoldNumCells_def a h)
qed

section \<open>The incremental search\<close>

lemma exact_rings_ge_1:
  assumes "1 \<le> n"
  shows "1 \<le> exact_rings n"
proof -
  define y where "y = sqrt (real_of_int (1 + 4 * (n - 1) div 3))"
  have "1 \<le> y"
    unfolding y_def using assms by (intro real_sqrt_ge_one) simp
  then have "0 < (1 + y) / 2" by simp
  then have "1 \<le> \<lceil>(1 + y) / 2\<rceil>" by linarith
  then show ?thesis by (simp only: exact_rings_def y_def)
qed

lemma ringSearch_exact:
  assumes "1 \<le> n" "1 \<le> r" "r \<le> exact_rings n"
  shows "ringSearch r n = exact_rings n"
  using assms
proof (induction "nat (exact_rings n - r)" arbitrary: r)
  case 0
  then have "r = exact_rings n" by simp
  moreover have "n \<le> totalPositionsUpToRing (exact_rings n)"
    using exact_rings_iff [OF \<open>1 \<le> n\<close> exact_rings_ge_1 [OF \<open>1 \<le> n\<close>]] by simp
  ultimately show ?case by simp
next
  case (Suc d)
  then have lt: "r < exact_rings n" by simp
  then have "\<not> n \<le> totalPositionsUpToRing r"
    using exact_rings_iff [OF \<open>1 \<le> n\<close> \<open>1 \<le> r\<close>] by simp
  moreover have "ringSearch (r + 1) n = exact_rings n"
    using Suc lt by (intro Suc.hyps(1)) simp_all
  ultimately show ?case by (subst ringSearch.simps) simp
qed

lemma incremental_exact:
  assumes "1 \<le> n"
  shows "ringsToHoldCount_incremental n = exact_rings n"
  using assms ringSearch_exact [OF assms _ exact_rings_ge_1 [OF assms]]
  by (simp add: ringsToHoldCount_incremental_def)

lemma totalPositionsUpToRing_ge_1: "1 \<le> totalPositionsUpToRing R"
proof -
  have "0 \<le> R * (R - 1)"
  proof (cases "1 \<le> R")
    case True
    then show ?thesis by simp
  next
    case False
    then have "R \<le> 0" and "R - 1 \<le> 0" by simp_all
    then show ?thesis by (rule mult_nonpos_nonpos)
  qed
  then show ?thesis by (simp add: totalPositionsUpToRing_def)
qed

lemma exact_rings_eqI:
  assumes "2 \<le> r" "totalPositionsUpToRing (r - 1) < n" "n \<le> totalPositionsUpToRing r"
  shows "exact_rings n = r"
proof -
  have n: "1 \<le> n" using assms(2) totalPositionsUpToRing_ge_1 [of "r - 1"] by simp
  have "exact_rings n \<le> r"
    using exact_rings_iff [OF n, of r] assms by simp
  moreover have "\<not> exact_rings n \<le> r - 1"
    using exact_rings_iff [OF n, of "r - 1"] assms by simp
  ultimately show ?thesis by simp
qed

section \<open>Full hexagons\<close>

lemma full_hexagon_arg:
  "1 + 4 * (totalPositionsUpToRing R - 1) div 3 = (2 * R - 1)\<^sup>2"
proof -
  have "4 * (totalPositionsUpToRing R - 1) = 3 * (4 * (R * (R - 1)))"
    by (simp add: totalPositionsUpToRing_def)
  then have "4 * (totalPositionsUpToRing R - 1) div 3 = 4 * (R * (R - 1))"
    by simp
  then show ?thesis by (simp add: power2_eq_square algebra_simps)
qed

lemma numRings_full_hexagon:
  assumes R1: "1 \<le> R" and R2: "R \<le> 4503599627370496"
  shows "numRingsToHoldNumCells (totalPositionsUpToRing R) = Inr R"
proof -
  define x where "x = 2 * R - 1"
  define M where "M = float_round (of_int (x\<^sup>2))"
  have x1: "1 \<le> x" and x2: "x < 2 ^ 53" using R1 R2 by (simp_all add: x_def)
  have s: "float_round (sqrt M) = of_int x" and M0: "0 < M" and M1: "M < 2 ^ 108"
    unfolding M_def using sqrt_round_square [OF x1 x2] by simp_all
  have "(2::real) ^ 108 \<le> 2 ^ 1024" by (rule power_increasing) simp_all
  then have "\<bar>M\<bar> < 2 ^ 1024" using M0 M1 by linarith
  then have "float_of_int (x\<^sup>2) = Inr M"
    by (simp add: float_of_int_def M_def)
  then have ms: "math_sqrt (x\<^sup>2) = Inr (of_int x)"
    using M0 s by (simp add: math_sqrt_def)
  have "float_round (of_int R * 2 powi 1) = of_int R * 2 powi 1"
    using R1 R2 by (intro float_round_exact [where j = R and f = 1]) simp_all
  then have a: "float_round (1 + of_int x) = 2 * of_int R"
    by (simp add: x_def algebra_simps)
  have h: "float_round (of_int R) = of_int R"
    using R1 R2 by (intro float_round_of_int) simp_all
  have n0: "totalPositionsUpToRing R \<noteq> 0"
    using totalPositionsUpToRing_ge_1 [of R] by simp
  show ?thesis
    unfolding numRingsToHoldNumCells_def
    by (simp only: n0 if_False full_hexagon_arg x_def [symmetric] ms sum.case a) (simp add: h)
qed

lemma numRings_beyond_full_hexagons:
  "numRingsToHoldNumCells 60847228810955024782640635969537 = Inr 4503599627370496"
proof -
  have M: "float_round 81129638414606699710187514626049 = 81129638414606699710187514626048"
  proof -
    have "\<bar>(81129638414606699710187514626049::real) / 2 powi (106 - 52)
            - of_int 4503599627370497\<bar> < 1 / 2"
      by simp
    from float_round_nearest [OF _ _ _ this] show ?thesis by simp
  qed
  define y :: real where "y = sqrt 81129638414606699710187514626048"
  have lo: "9007199254740991 < y"
    unfolding y_def by (rule real_less_rsqrt) simp
  have hi: "y < 9007199254740993"
    unfolding y_def by (rule real_less_lsqrt) simp_all
  have s: "float_round y = 9007199254740992"
  proof -
    have b1: "2 powi 53 \<le> y"
      unfolding y_def by (rule real_le_rsqrt) simp
    have b2: "y < 2 powi (53 + 1)" using hi by simp
    have "\<bar>y / 2 - 4503599627370496\<bar> < 1 / 2" using lo hi by linarith
    then have "\<bar>y / 2 powi (53 - 52) - of_int 4503599627370496\<bar> < 1 / 2"
      by simp
    from float_round_nearest [OF b1 b2 _ this] show ?thesis by simp
  qed
  have a: "float_round 9007199254740993 = 9007199254740992"
    using float_round_binade [of 53 9007199254740993]
    by (simp add: round_half_even_def Let_def)
  have h: "float_round 4503599627370496 = 4503599627370496"
    using float_round_of_int [of 4503599627370496] by simp
  have "float_of_int 81129638414606699710187514626049 = Inr 81129638414606699710187514626048"
    by (simp add: float_of_int_def M)
  then have "math_sqrt 81129638414606699710187514626049 = Inr 9007199254740992"
    using s by (simp add: math_sqrt_def y_def)
  then show ?thesis
    by (simp add: numRingsToHoldNumCells_def a h)
qed


section \<open>Lemmas on the rotation of one index\<close>

lemma totalPositionsUpToRing_mono:
  assumes "1 \<le> a" "a \<le> b"
  shows "totalPositionsUpToRing a \<le> totalPositionsUpToRing b"
proof -
  have "a * (a - 1) \<le> b * (b - 1)"
    using assms by (intro mult_mono) simp_all
  then show ?thesis by (simp add: totalPositionsUpToRing_def)
qed

lemma minimal_ring_bounds:
  assumes "2 \<le> r" "totalPositionsUpToRing (r - 1) < i"
  shows "\<forall>r'. 1 \<le> r' \<and> i \<le> totalPositionsUpToRing r' \<longrightarrow> r \<le> r'"
proof (intro allI impI)
  fix r'
  assume a: "1 \<le> r' \<and> i \<le> totalPositionsUpToRing r'"
  show "r \<le> r'"
  proof (rule ccontr)
    assume "\<not> r \<le> r'"
    then have "r' \<le> r - 1" by simp
    then have "totalPositionsUpToRing r' \<le> totalPositionsUpToRing (r - 1)"
      using a by (intro totalPositionsUpToRing_mono) simp_all
    then show False using a assms(2) by simp
  qed
qed

lemma exact_rings_minimal:
  assumes i: "1 \<le> i" and r: "1 \<le> r" "i \<le> totalPositionsUpToRing r"
    and least: "\<forall>r'. 1 \<le> r' \<and> i \<le> totalPositionsUpToRing r' \<longrightarrow> r \<le> r'"
  shows "exact_rings i = r"
proof -
  have "exact_rings i \<le> r" using exact_rings_iff [OF i r(1)] r(2) by simp
  moreover have "i \<le> totalPositionsUpToRing (exact_rings i)"
    using exact_rings_iff [OF i exact_rings_ge_1 [OF i]] by simp
  then have "r \<le> exact_rings i" using least exact_rings_ge_1 [OF i] by blast
  ultimately show ?thesis by simp
qed

lemma getIndexOfRotatedCell_ring:
  assumes "1 < i" "1 \<le> k" "k \<le> 5" "numRingsToHoldNumCells i = Inr r"
  shows "getIndexOfRotatedCell i k =
           Inr (if i + (r - 1) * k \<le> totalPositionsUpToRing r then i + (r - 1) * k
                else i + (r - 1) * k - 6 * (r - 1))"
  using assms by (simp add: getIndexOfRotatedCell_def Let_def)

lemma float_of_int_positive:
  assumes "1 \<le> m"
  shows "float_of_int m = Inl OverflowError \<or> (\<exists>y. float_of_int m = Inr y \<and> 1 \<le> y)"
proof -
  have "1 \<le> real_of_int m" using assms by simp
  then have "of_int 1 \<le> float_round (real_of_int m)"
    by (intro float_round_ge_int) simp_all
  then show ?thesis by (simp add: float_of_int_def Let_def)
qed

lemma numRings_cases:
  assumes "n \<noteq> 0" "float_of_int (1 + 4 * (n - 1) div 3) = F"
  shows "numRingsToHoldNumCells n =
           (case F of
              Inl e \<Rightarrow> Inl e
            | Inr y \<Rightarrow>
                if y < 0 then Inl ValueError
                else Inr \<lceil>float_round (1 / 2 * float_round (1 + float_round (sqrt y)))\<rceil>)"
  unfolding numRingsToHoldNumCells_def math_sqrt_def assms(2)
  using assms(1) by (cases F) simp_all

lemma numRings_no_ValueError:
  assumes "0 \<le> n"
  shows "numRingsToHoldNumCells n \<noteq> Inl ValueError"
    and "numRingsToHoldNumCells n \<noteq> Inl TypeError"
    and "numRingsToHoldNumCells n \<noteq> Inl IndexError"
proof -
  have "numRingsToHoldNumCells n \<notin> {Inl ValueError, Inl TypeError, Inl IndexError}"
  proof (cases "n = 0")
    case True
    then show ?thesis by (simp add: numRingsToHoldNumCells_def)
  next
    case False
    then have "1 \<le> 1 + 4 * (n - 1) div 3" using assms by simp
    from float_of_int_positive [OF this] show ?thesis
      by (auto simp: numRings_cases [OF False refl])
  qed
  then show "numRingsToHoldNumCells n \<noteq> Inl ValueError"
    and "numRingsToHoldNumCells n \<noteq> Inl TypeError"
    and "numRingsToHoldNumCells n \<noteq> Inl IndexError"
    by simp_all
qed

lemma float_of_int_in_range:
  assumes "1 \<le> m" "m \<le> 2 ^ 1024 - 2 ^ 971"
  shows "\<exists>y. float_of_int m = Inr y \<and> 1 \<le> y"
proof -
  define v :: real where "v = of_int (2 ^ 53 - 1) * 2 powi 971"
  have v: "v = 2 ^ 1024 - 2 ^ 971" by (simp add: v_def algebra_simps)
  have m1: "1 \<le> real_of_int m" using assms by simp
  have "real_of_int m \<le> real_of_int (2 ^ 1024 - 2 ^ 971)"
    using assms(2) by (simp only: of_int_le_iff)
  then have "real_of_int m \<le> v" by (simp add: v)
  then have "float_round (real_of_int m) \<le> v"
    by (intro float_round_le [OF m1 v_def]) simp_all
  moreover have "of_int 1 \<le> float_round (real_of_int m)"
    using m1 by (intro float_round_ge_int) simp_all
  ultimately have "\<bar>float_round (real_of_int m)\<bar> < 2 ^ 1024" "1 \<le> float_round (real_of_int m)"
    by (simp_all add: v)
  then show ?thesis by (simp add: float_of_int_def Let_def)
qed

lemma numRings_in_range:
  assumes "0 \<le> n" "1 + 4 * (n - 1) div 3 \<le> 2 ^ 1024 - 2 ^ 971"
  shows "\<exists>r. numRingsToHoldNumCells n = Inr r"
proof (cases "n = 0")
  case True
  then show ?thesis by (simp add: numRingsToHoldNumCells_def)
next
  case False
  then have "1 \<le> 1 + 4 * (n - 1) div 3" using assms(1) by simp
  from float_of_int_in_range [OF this assms(2)]
  show ?thesis
    by (auto simp: numRings_cases [OF False refl])
qed

lemma numRings_overflow:
  assumes "2 ^ 1024 \<le> n"
  shows "numRingsToHoldNumCells n = Inl OverflowError"
proof -
  define m where "m = 1 + 4 * (n - 1) div 3"
  have "(1::int) \<le> 2 ^ 1024" by simp
  then have n1: "1 \<le> n" using assms by linarith
  then have "n \<le> m" by (simp add: m_def)
  then have "2 ^ 1024 \<le> m" using assms by linarith
  then have "real_of_int (2 ^ 1024) \<le> real_of_int m" by (simp only: of_int_le_iff)
  then have le: "of_int 1 * 2 powi 1024 \<le> real_of_int m" by simp
  have "1 \<le> real_of_int m" using n1 \<open>n \<le> m\<close> by simp
  then have "of_int 1 * 2 powi 1024 \<le> float_round (real_of_int m)"
    using le by (intro float_round_ge [where j = 1 and f = 1024]) simp_all
  then have "2 ^ 1024 \<le> \<bar>float_round (real_of_int m)\<bar>" by simp
  then have "float_of_int (1 + 4 * (n - 1) div 3) = Inl OverflowError"
    by (simp add: float_of_int_def m_def)
  moreover have "n \<noteq> 0" using n1 by simp
  ultimately show ?thesis
    by (simp add: numRings_cases [of n "Inl OverflowError"])
qed


section \<open>Lemmas on the loop over the rings\<close>

lemma ring_total_int: "int (ring_total k) = totalPositionsUpToRing (int k + 1)"
  by (simp add: ring_total_def totalPositionsUpToRing_def algebra_simps)

lemma ring_total_Suc: "ring_total (Suc k) = ring_total k + 6 * Suc k"
  by (simp add: ring_total_def algebra_simps)

lemma ring_total_mono: "k \<le> K \<Longrightarrow> ring_total k \<le> ring_total K"
  unfolding ring_total_def by (intro add_left_mono mult_le_mono) simp_all

lemma py_bound_nonneg: "py_bound (int a) n = min a n"
  by (simp add: py_bound_def)

lemma py_slice_in_range:
  assumes "a \<le> b" "b \<le> length xs"
  shows "py_slice xs (int a) (int b) = take (b - a) (drop a xs)"
  using assms by (simp add: py_slice_def py_bound_nonneg)

lemma slice_assign_in_range:
  assumes "a \<le> b" "b \<le> length buf" "length vs = b - a"
  shows "slice_assign buf (int a) (int b) vs = Inr (take a buf @ vs @ drop b buf)"
  using assms by (simp add: slice_assign_def py_bound_nonneg Let_def)

lemma length_pivot [simp]: "length (pivot xs p) = length xs"
  by (simp add: pivot_def)

lemma mset_rotate: "mset (rotate n xs) = mset xs"
proof -
  have "mset (drop (n mod length xs) xs @ take (n mod length xs) xs)
          = mset (take (n mod length xs) xs @ drop (n mod length xs) xs)"
    by (simp only: mset_append add.commute)
  then show ?thesis by (simp add: rotate_drop_take)
qed

lemma mset_pivot [simp]: "mset (pivot xs p) = mset xs"
  by (simp add: pivot_def mset_rotate)

lemma pivot_nth:
  assumes "t < length xs"
  shows "pivot xs p ! t = xs ! ((nat (p mod int (length xs)) + t) mod length xs)"
  using assms by (simp add: pivot_def nth_rotate)


lemma length_rotated_prefix:
  assumes "ring_total k \<le> length xs"
  shows "length (rotated_prefix xs s k) = ring_total k"
  using assms
proof (induction k)
  case 0
  then show ?case by (simp add: ring_total_def)
next
  case (Suc k)
  have "ring_total k \<le> ring_total (Suc k)" by (simp add: ring_total_Suc)
  then have "length (rotated_prefix xs s k) = ring_total k" using Suc by simp
  moreover have "ring_total k + 6 * Suc k \<le> length xs" using Suc.prems by (simp add: ring_total_Suc)
  ultimately show ?case
    by (simp add: ring_total_Suc) (simp add: ring_total_def)
qed

lemma rotate_rings_run:
  assumes "length buf = length xs" "ring_total K \<le> length xs" "k \<le> K"
    "take (ring_total k) buf = map f (rotated_prefix xs s k)"
  shows "\<exists>buf'. rotate_rings f xs s [int k + 2..int K + 1] (buf, int (ring_total k))
                    = Inr (buf', int (ring_total K))
               \<and> length buf' = length xs
               \<and> take (ring_total K) buf' = map f (rotated_prefix xs s K)
               \<and> drop (ring_total K) buf' = drop (ring_total K) buf"
  using assms
proof (induction "K - k" arbitrary: k buf)
  case 0
  then have "k = K" by simp
  then show ?case using 0 by simp
next
  case (Suc d)
  then have kK: "Suc k \<le> K" by simp
  have up: "[int k + 2..int K + 1] = (int k + 2) # [int (Suc k) + 2..int K + 1]"
    using kK by (subst upto_rec1) (simp_all add: algebra_simps)
  have tot: "ring_total (Suc k) \<le> length xs"
    using ring_total_mono [OF kK] Suc.prems(2) by simp
  have le: "ring_total k \<le> ring_total (Suc k)" by (simp add: ring_total_Suc)
  define W where "W = take (6 * Suc k) (drop (1 + 3 * k * Suc k) xs)"
  define V where "V = map f (pivot W (- (s * int (Suc k))))"
  have lenW: "length W = 6 * Suc k"
    using tot by (simp add: W_def ring_total_Suc) (simp add: ring_total_def)
  have sl: "py_slice xs (int (ring_total k)) (int (ring_total (Suc k))) = W"
    using py_slice_in_range [OF le tot] by (simp add: W_def ring_total_Suc) (simp add: ring_total_def)
  define buf1 where "buf1 = take (ring_total k) buf @ V @ drop (ring_total (Suc k)) buf"
  have as: "slice_assign buf (int (ring_total k)) (int (ring_total (Suc k))) V = Inr buf1"
    unfolding buf1_def using tot Suc.prems(1) lenW
    by (intro slice_assign_in_range [OF le]) (simp_all add: V_def ring_total_Suc)
  have len1: "length buf1 = length xs"
    using tot Suc.prems(1) lenW le by (simp add: buf1_def V_def ring_total_Suc)
  have lenp: "length (take (ring_total k) buf) = ring_total k"
    using tot le Suc.prems(1) by simp
  have "take (ring_total (Suc k)) buf1 = take (ring_total k) buf @ V"
    using lenp lenW by (simp add: buf1_def V_def ring_total_Suc)
  then have pre1: "take (ring_total (Suc k)) buf1 = map f (rotated_prefix xs s (Suc k))"
    by (simp add: Suc.prems(4) V_def W_def)
  have d: "d = K - Suc k" using Suc.hyps(2) by simp
  from Suc.hyps(1) [OF d len1 Suc.prems(2) kK pre1]
  obtain buf' where b: "rotate_rings f xs s [int (Suc k) + 2..int K + 1] (buf1, int (ring_total (Suc k)))
                    = Inr (buf', int (ring_total K))"
     "length buf' = length xs" "take (ring_total K) buf' = map f (rotated_prefix xs s K)"
     "drop (ring_total K) buf' = drop (ring_total K) buf1"
    by blast
  have step: "rotate_rings f xs s [int k + 2..int K + 1] (buf, int (ring_total k))
      = rotate_rings f xs s [int (Suc k) + 2..int K + 1] (buf1, int (ring_total (Suc k)))"
  proof -
    have e1: "numPositionsInRing (int k + 2) = int (6 * Suc k)"
      by (simp add: numPositionsInRing_def)
    have e2: "int (ring_total k) + int (6 * Suc k) = int (ring_total (Suc k))"
      by (simp add: ring_total_Suc)
    have e3: "int (6 * Suc k) div 6 = int (Suc k)" by simp
    show ?thesis
      unfolding up rotate_rings.simps Let_def e1 e2 e3 sl
      using as by (simp add: V_def)
  qed
  have "drop (ring_total K) buf1 = drop (ring_total K) buf"
  proof -
    have "ring_total (Suc k) \<le> ring_total K" by (rule ring_total_mono [OF kK])
    then obtain c where c: "ring_total K = ring_total (Suc k) + c"
      using le_Suc_ex by blast
    have "length (take (ring_total k) buf @ V) = ring_total (Suc k)"
      using lenp lenW by (simp add: V_def ring_total_Suc)
    then have "drop (ring_total (Suc k)) buf1 = drop (ring_total (Suc k)) buf"
      unfolding buf1_def by (metis append.assoc append_eq_conv_conj)
    then have "drop c (drop (ring_total (Suc k)) buf1) = drop c (drop (ring_total (Suc k)) buf)"
      by simp
    then show ?thesis by (simp add: c add.commute)
  qed
  then show ?case using b step by simp
qed


lemma rotateHexCellData_full:
  assumes R: "1 \<le> R" "R \<le> 4503599627370496"
    and len: "int (length xs) = totalPositionsUpToRing R"
    and kind: "is_list_or_ndarray data" "entries data = xs" and conv: "converts np data"
  shows "rotateHexCellData np uninit data (totalPositionsUpToRing R) s
           = (data, Inr (same_kind data
                (map (stored_as np data) (rotated_prefix xs s (nat (R - 1))))))"
proof -
  define f where "f = stored_as np data"
  define K where "K = nat (R - 1)"
  have RK: "R = int K + 1" using R(1) by (simp add: K_def)
  have N: "length xs = ring_total K"
    using len ring_total_int [of K] by (simp add: RK)
  have ne: "xs \<noteq> []" using N by (auto simp: ring_total_def)
  define buf0 where "buf0 = (map uninit [0..<length xs])[0 := f (xs ! 0)]"
  have l0: "length buf0 = length xs" by (simp add: buf0_def)
  have "take 1 (ys[0 := v]) = [v]" if "ys \<noteq> []" for ys :: "'a list" and v
    using that by (cases ys) simp_all
  then have "take 1 buf0 = [f (xs ! 0)]"
    unfolding buf0_def using ne by simp
  moreover have "take 1 xs = [xs ! 0]" using ne by (cases xs) simp_all
  ultimately have p0: "take (ring_total 0) buf0 = map f (rotated_prefix xs s 0)"
    by (simp add: ring_total_def)
  from rotate_rings_run [OF l0 _ _ p0, of K] N
  obtain buf' where b: "rotate_rings f xs s [2..int K + 1] (buf0, 1) = Inr (buf', int (ring_total K))"
    "length buf' = length xs" "take (ring_total K) buf' = map f (rotated_prefix xs s K)"
    by (auto simp: ring_total_def)
  have out: "buf' = map f (rotated_prefix xs s K)" using b(2,3) N by simp
  have nr: "numRingsToHoldNumCells (totalPositionsUpToRing R) = Inr R"
    by (rule numRings_full_hexagon [OF R])
  have up: "[2..R] = [2..int K + 1]" by (simp add: RK)
  have b': "rotate_rings f xs s [2..R] (buf0, 1)
              = Inr (map f (rotated_prefix xs s (nat (R - 1))), int (ring_total K))"
    using b(1) unfolding up out K_def [symmetric] .
  have c: "int (length (entries data)) = totalPositionsUpToRing R" "entries data \<noteq> []"
    using kind(2) len ne by simp_all
  show ?thesis
    unfolding rotateHexCellData_def Let_def
    by (simp only: kind(1) conv c nr not_True_eq_False not_not if_False sum.case)
      (simp add: kind(2) f_def [symmetric] buf0_def [symmetric] b')
qed

lemma mset_rotated_prefix:
  assumes "ring_total k \<le> length xs"
  shows "mset (rotated_prefix xs s k) = mset (take (ring_total k) xs)"
  using assms
proof (induction k)
  case 0
  then show ?case by (simp add: ring_total_def)
next
  case (Suc k)
  have "ring_total k \<le> length xs" using Suc.prems by (simp add: ring_total_Suc)
  then have ih: "mset (rotated_prefix xs s k) = mset (take (ring_total k) xs)"
    by (rule Suc.IH)
  have "take (ring_total (Suc k)) xs
          = take (ring_total k) xs @ take (6 * Suc k) (drop (ring_total k) xs)"
    by (simp add: ring_total_Suc take_add)
  then show ?case by (simp add: ih) (simp add: ring_total_def)
qed


lemma rotated_prefix_append:
  assumes "k \<le> K"
  shows "\<exists>rest. rotated_prefix xs s K = rotated_prefix xs s k @ rest"
  using assms
proof (induction K)
  case 0
  then show ?case by simp
next
  case (Suc K)
  show ?case
  proof (cases "k = Suc K")
    case True
    then show ?thesis by simp
  next
    case False
    then have "k \<le> K" using Suc.prems by simp
    then obtain rest where "rotated_prefix xs s K = rotated_prefix xs s k @ rest"
      using Suc.IH by blast
    then show ?thesis by simp
  qed
qed

lemma rotated_prefix_nth:
  assumes "ring_total K \<le> length xs" "Suc k \<le> K" "t < 6 * Suc k"
  shows "rotated_prefix xs s K ! (ring_total k + t)
           = xs ! (ring_total k
                     + (nat ((- (s * int (Suc k))) mod int (6 * Suc k)) + t) mod (6 * Suc k))"
proof -
  have tot: "ring_total (Suc k) \<le> length xs"
    using ring_total_mono [OF assms(2)] assms(1) by simp
  then have le: "ring_total k + 6 * Suc k \<le> length xs" by (simp add: ring_total_Suc)
  then have lk: "length (rotated_prefix xs s k) = ring_total k"
    by (intro length_rotated_prefix) simp
  define W where "W = take (6 * Suc k) (drop (ring_total k) xs)"
  have lenW: "length W = 6 * Suc k" using le by (simp add: W_def)
  have W': "W = take (6 * Suc k) (drop (1 + 3 * k * Suc k) xs)"
    by (simp add: W_def ring_total_def)
  obtain rest where "rotated_prefix xs s K = rotated_prefix xs s (Suc k) @ rest"
    using rotated_prefix_append [OF assms(2)] by blast
  then have "rotated_prefix xs s K
               = rotated_prefix xs s k @ (pivot W (- (s * int (Suc k))) @ rest)"
    by (simp add: W')
  then have "rotated_prefix xs s K ! (ring_total k + t)
               = (pivot W (- (s * int (Suc k))) @ rest) ! t"
    using lk by (simp add: nth_append)
  also have "\<dots> = pivot W (- (s * int (Suc k))) ! t"
    using assms(3) lenW by (simp add: nth_append)
  also have "\<dots> = W ! ((nat ((- (s * int (Suc k))) mod int (6 * Suc k)) + t) mod (6 * Suc k))"
    using assms(3) lenW by (simp add: pivot_nth)
  also have "\<dots> = xs ! (ring_total k
                     + (nat ((- (s * int (Suc k))) mod int (6 * Suc k)) + t) mod (6 * Suc k))"
    using le by (simp add: W_def)
  finally show ?thesis .
qed

lemma ring_locate:
  assumes "1 \<le> i" "i < ring_total K"
  shows "\<exists>k. Suc k \<le> K \<and> ring_total k \<le> i \<and> i < ring_total (Suc k)"
  using assms(2)
proof (induction K)
  case 0
  then show ?case using assms(1) by (simp add: ring_total_def)
next
  case (Suc K)
  show ?case
  proof (cases "i < ring_total K")
    case True
    then obtain k where "Suc k \<le> K \<and> ring_total k \<le> i \<and> i < ring_total (Suc k)"
      using Suc.IH by blast
    then show ?thesis by (intro exI [of _ k]) simp
  next
    case False
    then show ?thesis using Suc.prems by (intro exI [of _ K]) simp
  qed
qed

lemma rotated_prefix_nth_0:
  assumes "xs \<noteq> []"
  shows "rotated_prefix xs s K ! 0 = xs ! 0"
proof -
  obtain rest where "rotated_prefix xs s K = rotated_prefix xs s 0 @ rest"
    using rotated_prefix_append [of 0 K] by blast
  then show ?thesis using assms by (cases xs) simp_all
qed

lemma shift_mod:
  fixes s :: int and e q :: nat
  assumes e: "0 < e" and q: "q < 6 * e"
  defines "L \<equiv> 6 * e"
  defines "t \<equiv> (q + nat (s mod 6) * e) mod L"
  shows "(nat ((- (s * int e)) mod int L) + t) mod L = q"
proof -
  have L: "0 < L" using e by (simp add: L_def)
  have c: "0 \<le> s mod 6" by simp
  have se: "s * int e = int L * (s div 6) + (s mod 6) * int e"
  proof -
    define a c where "a = s div 6" and "c = s mod 6"
    have "s = 6 * a + c" by (simp add: a_def c_def)
    then have "s * int e = int L * a + c * int e"
      by (simp add: L_def algebra_simps)
    then show ?thesis by (simp only: a_def c_def)
  qed
  have "int t = (int q + (s mod 6) * int e) mod int L"
    using c by (simp add: t_def zmod_int)
  moreover have "int (nat ((- (s * int e)) mod int L)) = (- (s * int e)) mod int L"
    using L by simp
  ultimately have "int ((nat ((- (s * int e)) mod int L) + t) mod L)
        = ((- (s * int e)) mod int L + (int q + (s mod 6) * int e) mod int L) mod int L"
    by (simp add: zmod_int)
  also have "\<dots> = (- (s * int e) + (int q + (s mod 6) * int e)) mod int L"
    by (simp only: mod_add_eq)
  also have "- (s * int e) + (int q + (s mod 6) * int e) = int q + int L * (- (s div 6))"
    by (simp add: se)
  also have "(int q + int L * (- (s div 6))) mod int L = int q mod int L"
    by (simp only: mod_mult_self2)
  also have "\<dots> = int q" using q by (simp add: L_def)
  finally show ?thesis by (simp only: int_int_eq)
qed

lemma rotated_index_position:
  assumes len: "ring_total K \<le> length xs" and k: "Suc k \<le> K"
    and i: "ring_total k \<le> i" "i < ring_total (Suc k)" and ib: "int i + 1 \<le> 3377699619864577"
  shows "\<exists>j. getIndexOfRotatedCell (int i + 1) (s mod 6) = Inr j
            \<and> int (ring_total k) < j \<and> j \<le> int (ring_total (Suc k))
            \<and> rotated_prefix xs s K ! nat (j - 1) = xs ! i"
proof -
  define e where "e = Suc k"
  define L where "L = 6 * e"
  define q where "q = i - ring_total k"
  define c where "c = s mod 6"
  define t where "t = (q + nat c * e) mod L"
  have e0: "0 < e" by (simp add: e_def)
  have qL: "q < 6 * e" using i by (simp add: q_def e_def ring_total_Suc)
  have iq: "i = ring_total k + q" using i(1) by (simp add: q_def)
  have c05: "0 \<le> c" "c \<le> 5" by (simp_all add: c_def)
  have tL: "t < 6 * Suc k" by (simp add: t_def L_def e_def)
  have src: "(nat ((- (s * int (Suc k))) mod int (6 * Suc k)) + t) mod (6 * Suc k) = q"
    using shift_mod [OF e0 qL, of s] by (simp add: t_def L_def e_def c_def)
  have "rotated_prefix xs s K ! (ring_total k + t) = xs ! (ring_total k + q)"
    by (simp only: rotated_prefix_nth [OF len k tL, of s] src)
  then have A: "rotated_prefix xs s K ! (ring_total k + t) = xs ! i"
    by (simp only: iq)
  have B: "getIndexOfRotatedCell (int i + 1) c = Inr (int (ring_total k + t) + 1)"
  proof (cases "c = 0")
    case True
    have "1 \<le> ring_total k" by (simp add: ring_total_def)
    then have "1 < int i + 1" using i(1) by simp
    moreover have "t = q" using qL by (simp add: t_def True L_def)
    ultimately show ?thesis
      by (simp add: getIndexOfRotatedCell_def True iq)
  next
    case False
    then have c15: "1 \<le> c" "c \<le> 5" using c05 by simp_all
    have "1 \<le> ring_total k" by (simp add: ring_total_def)
    then have i1: "1 < int i + 1" "1 \<le> int i + 1" using i(1) by simp_all
    have "totalPositionsUpToRing (int k + 2 - 1) = int (ring_total k)"
      by (simp add: ring_total_def totalPositionsUpToRing_def algebra_simps)
    then have lo: "totalPositionsUpToRing (int k + 2 - 1) < int i + 1"
      using i(1) by simp
    have tot2: "totalPositionsUpToRing (int k + 2) = int (ring_total (Suc k))"
      by (simp add: ring_total_def totalPositionsUpToRing_def algebra_simps)
    then have hi: "int i + 1 \<le> totalPositionsUpToRing (int k + 2)"
      using i(2) by simp
    have er: "exact_rings (int i + 1) = int k + 2"
      by (rule exact_rings_eqI [OF _ lo hi]) simp
    have nr: "numRingsToHoldNumCells (int i + 1) = Inr (int k + 2)"
      using numRings_float_exact [OF i1(2) ib] er by simp
    have tot: "totalPositionsUpToRing (int k + 2) = int (ring_total k) + int L"
      unfolding tot2 by (simp add: ring_total_Suc L_def e_def)
    have ce: "nat c * e \<le> 5 * e" using c15 by (intro mult_le_mono) simp_all
    have nc: "int (nat c) = c" using c15 by simp
    have g: "getIndexOfRotatedCell (int i + 1) c =
         Inr (if int i + 1 + (int k + 2 - 1) * c \<le> totalPositionsUpToRing (int k + 2)
              then int i + 1 + (int k + 2 - 1) * c
              else int i + 1 + (int k + 2 - 1) * c - 6 * (int k + 2 - 1))"
      by (rule getIndexOfRotatedCell_ring [OF i1(1) c15 nr])
    have ke: "int k + 2 - 1 = int e" by (simp add: e_def)
    have qce: "int (q + nat c * e) = int q + int e * c"
      using nc by (simp add: mult.commute)
    have iq': "int i = int (ring_total k) + int q" by (simp add: iq)
    show ?thesis
    proof (cases "q + nat c * e < L")
      case True
      then have t: "t = q + nat c * e" by (simp add: t_def)
      have "int (q + nat c * e) < int L" using True by (simp only: of_nat_less_iff)
      then have lt: "int q + int e * c < int L" by (simp only: qce)
      then have "int i + 1 + int e * c \<le> totalPositionsUpToRing (int k + 2)"
        unfolding tot iq' by linarith
      moreover have "int (ring_total k + t) + 1 = int i + 1 + int e * c"
        unfolding t iq' using qce by simp
      ultimately show ?thesis
        unfolding g ke by simp
    next
      case False
      have "q + nat c * e < L + L" using qL ce unfolding L_def by linarith
      then have "(q + nat c * e) mod L = q + nat c * e - L"
        using False by (simp add: mod_if)
      then have "t = q + nat c * e - L" by (simp add: t_def)
      then have "int t = int (q + nat c * e) - int L" using False by simp
      then have t': "int t = int q + int e * c - int L" by (simp only: qce)
      have "int L \<le> int (q + nat c * e)" using False by (simp only: of_nat_le_iff)
      then have "int L \<le> int q + int e * c" by (simp only: qce)
      then have "\<not> int i + 1 + int e * c \<le> totalPositionsUpToRing (int k + 2)"
        unfolding tot iq' by linarith
      moreover have "int (ring_total k + t) + 1 = int i + 1 + int e * c - 6 * int e"
        unfolding iq' using t' by (simp add: L_def)
      ultimately show ?thesis
        unfolding g ke by simp
    qed
  qed
  have "nat (int (ring_total k + t) + 1 - 1) = ring_total k + t" by simp
  then have "rotated_prefix xs s K ! nat (int (ring_total k + t) + 1 - 1) = xs ! i"
    using A by (simp only:)
  moreover have "int (ring_total k) < int (ring_total k + t) + 1" by simp
  moreover have "int (ring_total k + t) + 1 \<le> int (ring_total (Suc k))"
    using tL by (simp add: ring_total_Suc)
  ultimately show ?thesis
    using B unfolding c_def by blast
qed


lemma full_hexagon_list_bound:
  assumes "1 \<le> R" "int n = totalPositionsUpToRing R" "n \<le> 9223372036854775807"
  shows "R \<le> 4503599627370496"
proof (rule ccontr)
  assume "\<not> R \<le> 4503599627370496"
  then have "4503599627370497 \<le> R" by simp
  then have "totalPositionsUpToRing 4503599627370497 \<le> totalPositionsUpToRing R"
    by (intro totalPositionsUpToRing_mono) simp_all
  then have "totalPositionsUpToRing 4503599627370497 \<le> int n" using assms(2) by simp
  moreover have "int n \<le> 9223372036854775807" using assms(3) by simp
  ultimately show False by (simp add: totalPositionsUpToRing_def)
qed


lemma pivot_scenario: "pivot [0, 10, 20, 30, 40, 50 :: int] (- 1) = [50, 0, 10, 20, 30, 40]"
  by (simp add: pivot_def rotate_def eval_nat_numeral)

lemma rotated_prefix_subset:
  assumes "ring_total k \<le> length xs"
  shows "set (rotated_prefix xs s k) \<subseteq> set xs"
proof -
  have "set (rotated_prefix xs s k) = set (take (ring_total k) xs)"
    using mset_rotated_prefix [OF assms, of s] by (metis set_mset_mset)
  then show ?thesis using set_take_subset [of "ring_total k" xs] by simp
qed

lemma stored_unchanged_map:
  assumes "stored_unchanged np data" "entries data = xs" "set ys \<subseteq> set xs"
  shows "map (stored_as np data) ys = ys"
proof (cases data)
  case (PyList zs)
  then have "\<forall>x\<in>set xs. np_stored np xs x = x"
    using assms(1,2) by (simp add: list_all_iff)
  then have "\<And>y. y \<in> set ys \<Longrightarrow> np_stored np xs y = y"
    using assms(3) by blast
  then have "map (np_stored np xs) ys = ys" by (simp add: map_idI)
  moreover have "stored_as np (PyList xs) = np_stored np xs" by (rule ext) simp
  ultimately show ?thesis using PyList assms(2) by simp
next
  case (NdArray zs)
  have "stored_as np (NdArray zs) = (\<lambda>x. x)" by (rule ext) simp
  then show ?thesis using NdArray by simp
next
  case (PyTuple zs)
  then show ?thesis using assms(1) by simp
qed

lemma stored_unchanged_kind:
  assumes "stored_unchanged np data"
  shows "is_list_or_ndarray data" and "converts np data"
  using assms by (cases data; simp)+

lemma rotateHexCellData_unchanged:
  assumes R: "1 \<le> R" "R \<le> 4503599627370496"
    and len: "int (length xs) = totalPositionsUpToRing R"
    and kind: "stored_unchanged np data" "entries data = xs"
  shows "rotateHexCellData np uninit data (totalPositionsUpToRing R) s
           = (data, Inr (same_kind data (rotated_prefix xs s (nat (R - 1)))))"
proof -
  have N: "ring_total (nat (R - 1)) \<le> length xs"
  proof -
    have "int (ring_total (nat (R - 1))) = totalPositionsUpToRing R"
      using ring_total_int [of "nat (R - 1)"] R(1) by simp
    then show ?thesis using len by linarith
  qed
  have "map (stored_as np data) (rotated_prefix xs s (nat (R - 1)))
          = rotated_prefix xs s (nat (R - 1))"
    by (rule stored_unchanged_map [OF kind rotated_prefix_subset [OF N]])
  then show ?thesis
    using rotateHexCellData_full [OF R len stored_unchanged_kind(1) [OF kind(1)] kind(2)
        stored_unchanged_kind(2) [OF kind(1)], of uninit s]
    by simp
qed

lemma rotate_seven:
  "rotateHexCellData numpy_rows (\<lambda>_. PyNum 0)
     (PyList [PyNum 10, PyNum 11, PyNum 12, PyNum 13, PyNum 14, PyNum 15, PyNum 16]) 7 1
     = (PyList [PyNum 10, PyNum 11, PyNum 12, PyNum 13, PyNum 14, PyNum 15, PyNum 16],
        Inr (PyList [PyNum 10, PyNum 16, PyNum 11, PyNum 12, PyNum 13, PyNum 14, PyNum 15]))"
proof -
  let ?xs = "[PyNum 10, PyNum 11, PyNum 12, PyNum 13, PyNum 14, PyNum 15, PyNum 16]"
  have "rotated_prefix ?xs 1 (Suc 0)
          = [PyNum 10, PyNum 16, PyNum 11, PyNum 12, PyNum 13, PyNum 14, PyNum 15]"
    by (simp add: pivot_def rotate_def eval_nat_numeral)
  then show ?thesis
    using rotateHexCellData_unchanged [of 2 ?xs numpy_rows "PyList ?xs" "\<lambda>_. PyNum 0" 1]
    by (simp add: totalPositionsUpToRing_def numpy_rows_def)
qed

lemma rotate_one_tuple:
  "rotateHexCellData numpy_rows (\<lambda>_. PyNum 0) (PyList [PyTup [1, 2]]) 1 s
     = (PyList [PyTup [1, 2]], Inr (PyList [PyLst [1, 2]]))"
  using rotateHexCellData_full [of 1 "[PyTup [1, 2]]" "PyList [PyTup [1, 2]]" numpy_rows
      "\<lambda>_. PyNum 0" s]
  by (simp add: totalPositionsUpToRing_def numpy_rows_def)

lemma rotate_ragged:
  "rotateHexCellData numpy_rows (\<lambda>_. PyNum 0) (PyList [PyTup [1, 2], PyTup [3]]) 2 s
     = (PyList [PyTup [1, 2], PyTup [3]], Inl ValueError)"
  by (simp add: rotateHexCellData_def numpy_rows_def)

section \<open>Ring arithmetic: the two closed forms\<close>

text \<open>
  C5, as the code has it. \<open>totalPositionsUpToRing\<close> returns
  \<open>1 + 3 * ring * (ring - 1)\<close> for every ring, so for every ring from 1 on; at
  ring 0 this is 1 (the source has no sentinel for "no rings"); the result is at
  least 1, so non-negative, for every ring.
\<close>

theorem totalPositionsUpToRing_value:
  "totalPositionsUpToRing ring = 1 + 3 * ring * (ring - 1) \<and>
   totalPositionsUpToRing 0 = 1 \<and> 1 \<le> totalPositionsUpToRing ring"
  using totalPositionsUpToRing_ge_1 [of ring] by (simp add: totalPositionsUpToRing_def)

text \<open>The claim as stated asks for 0 at ring 0.\<close>

theorem totalPositionsUpToRing_zero_counterexample:
  "totalPositionsUpToRing 0 \<noteq> 0"
  by (simp add: totalPositionsUpToRing_def)

text \<open>
  C6, as the code has it. \<open>numPositionsInRing\<close> returns 1 at ring 1 and
  \<open>6 * (ring - 1)\<close>, a positive multiple of 6, at every ring from 2 on; at a ring
  below 1 it raises nothing and returns the negative number \<open>6 * (ring - 1)\<close>.
\<close>

theorem numPositionsInRing_value:
  "numPositionsInRing 1 = 1 \<and>
   (2 \<le> ring \<longrightarrow> numPositionsInRing ring = 6 * (ring - 1) \<and> 0 < numPositionsInRing ring
      \<and> numPositionsInRing ring mod 6 = 0) \<and>
   (ring < 1 \<longrightarrow> numPositionsInRing ring = 6 * (ring - 1) \<and> numPositionsInRing ring < 0)"
  by (simp add: numPositionsInRing_def)

theorem numPositionsInRing_value_witness:
  "numPositionsInRing 1 = 1 \<and> numPositionsInRing 3 = 12 \<and> numPositionsInRing (- 2) = - 18"
  using numPositionsInRing_value [of 3] numPositionsInRing_value [of "- 2"] by simp

text \<open>The claim as stated asks for an error at ring 0; the function returns \<open>- 6\<close>.\<close>

theorem numPositionsInRing_zero_counterexample:
  "numPositionsInRing 0 = - 6"
  by (simp add: numPositionsInRing_def)

section \<open>The ring count against the incremental definition\<close>

text \<open>
  C1, within the range of the float computation. For every cell count from 0 to
  3377699619864577, \<open>numRingsToHoldNumCells\<close> returns what the incremental search
  returns: 0 at 0, and from 1 on the least ring \<open>r \<ge> 1\<close> with
  \<open>1 + 3 * r * (r - 1) \<ge> cellCount\<close>. The bound is the last cell count before the
  first one at which the rounding of the float operations changes the result.
\<close>

theorem numRingsToHoldNumCells_minimal:
  assumes "0 \<le> n" and "n \<le> 3377699619864577"
  shows "numRingsToHoldNumCells n = Inr (ringsToHoldCount_incremental n) \<and>
         (ringsToHoldCount_incremental n = 0 \<longleftrightarrow> n = 0) \<and>
         (1 \<le> n \<longrightarrow>
            1 \<le> ringsToHoldCount_incremental n \<and>
            n \<le> totalPositionsUpToRing (ringsToHoldCount_incremental n) \<and>
            (\<forall>r. 1 \<le> r \<and> n \<le> totalPositionsUpToRing r \<longrightarrow> ringsToHoldCount_incremental n \<le> r))"
proof (cases "n = 0")
  case True
  then show ?thesis
    by (simp add: numRingsToHoldNumCells_def ringsToHoldCount_incremental_def)
next
  case False
  then have n: "1 \<le> n" using assms(1) by simp
  have inc: "ringsToHoldCount_incremental n = exact_rings n" by (rule incremental_exact [OF n])
  have c: "1 \<le> exact_rings n" by (rule exact_rings_ge_1 [OF n])
  have "n \<le> totalPositionsUpToRing (exact_rings n)"
    using exact_rings_iff [OF n c] by simp
  moreover have "\<forall>r. 1 \<le> r \<and> n \<le> totalPositionsUpToRing r \<longrightarrow> exact_rings n \<le> r"
    using exact_rings_iff [OF n] by blast
  moreover have "numRingsToHoldNumCells n = Inr (exact_rings n)"
    by (rule numRings_float_exact [OF n assms(2)])
  ultimately show ?thesis using c n by (simp add: inc)
qed

theorem numRingsToHoldNumCells_minimal_witness:
  "numRingsToHoldNumCells 8 = Inr 3 \<and> numRingsToHoldNumCells 7 = Inr 2 \<and>
   numRingsToHoldNumCells 0 = Inr 0 \<and> ringsToHoldCount_incremental 8 = 3 \<and>
   8 \<le> totalPositionsUpToRing 3"
proof -
  have a: "ringsToHoldCount_incremental 8 = 3" "ringsToHoldCount_incremental 7 = 2"
    "ringsToHoldCount_incremental 0 = 0"
    by (simp_all add: ringsToHoldCount_incremental_def totalPositionsUpToRing_def)
  show ?thesis
    using numRingsToHoldNumCells_minimal [of 8] numRingsToHoldNumCells_minimal [of 7]
      numRingsToHoldNumCells_minimal [of 0]
    by (simp add: a)
qed

text \<open>
  At 3377699619864578 cells the function returns 33554432 rings, which hold one cell
  less: \<open>1 + 4 * (n - 1) div 3\<close> is \<open>67108863\<^sup>2 + 1\<close>, its float square root is
  \<open>67108863 + 2\<^sup>-\<^sup>2\<^sup>7\<close>, and adding 1 rounds to \<open>67108864\<close>.
\<close>

theorem numRingsToHoldNumCells_counterexample:
  "numRingsToHoldNumCells 3377699619864578 = Inr 33554432 \<and>
   totalPositionsUpToRing 33554432 < 3377699619864578"
  by (simp add: numRings_first_failure totalPositionsUpToRing_def)

text \<open>
  C10, within the range of the float computation. For every \<open>R\<close> from 1 to
  \<open>2\<^sup>5\<^sup>2 = 4503599627370496\<close>, \<open>numRingsToHoldNumCells (1 + 3 * R * (R - 1))\<close>
  returns exactly \<open>R\<close>: the argument of the square root is the square of \<open>2 * R - 1\<close>,
  and the float square root of a rounded square of a 53 bit integer is that integer.
\<close>

theorem numRingsToHoldNumCells_full_hexagon:
  assumes "1 \<le> R" and "R \<le> 4503599627370496"
  shows "numRingsToHoldNumCells (1 + 3 * R * (R - 1)) = Inr R"
  using numRings_full_hexagon [OF assms] by (simp add: totalPositionsUpToRing_def)

theorem numRingsToHoldNumCells_full_hexagon_witness:
  "numRingsToHoldNumCells 19 = Inr 3 \<and> numRingsToHoldNumCells 1 = Inr 1"
  using numRingsToHoldNumCells_full_hexagon [of 3] numRingsToHoldNumCells_full_hexagon [of 1]
  by simp

text \<open>
  At \<open>R = 2\<^sup>5\<^sup>2 + 1\<close> the function returns \<open>2\<^sup>5\<^sup>2\<close>: \<open>2 * R - 1\<close> is not a float any
  more.
\<close>

theorem numRingsToHoldNumCells_full_hexagon_counterexample:
  "numRingsToHoldNumCells (1 + 3 * 4503599627370497 * (4503599627370497 - 1))
     = Inr 4503599627370496"
  using numRings_beyond_full_hexagons by simp

section \<open>The rotated index\<close>

text \<open>
  C3, within the range of the float computation. For every initial index from 2 to
  3377699619864577 and every orientation number \<open>k\<close> from 1 to 5: with \<open>r\<close> the least
  ring such that \<open>1 + 3 * r * (r - 1) \<ge> initialIndex\<close>, \<open>e = r - 1\<close> and
  \<open>t = 1 + 3 * r * (r - 1)\<close>, \<open>getIndexOfRotatedCell\<close> returns
  \<open>initialIndex + e * k\<close> when that sum is at most \<open>t\<close> and
  \<open>initialIndex + e * k - 6 * e\<close> otherwise, and the returned value is at most \<open>t\<close>.
\<close>

theorem getIndexOfRotatedCell_value:
  assumes "2 \<le> i" and "i \<le> 3377699619864577" and "1 \<le> k" and "k \<le> 5"
    and "1 \<le> r" and "i \<le> 1 + 3 * r * (r - 1)"
    and "\<forall>r'. 1 \<le> r' \<and> i \<le> 1 + 3 * r' * (r' - 1) \<longrightarrow> r \<le> r'"
  shows "\<exists>j. getIndexOfRotatedCell i k = Inr j \<and>
           j = (if i + (r - 1) * k \<le> 1 + 3 * r * (r - 1) then i + (r - 1) * k
                else i + (r - 1) * k - 6 * (r - 1)) \<and>
           j \<le> 1 + 3 * r * (r - 1)"
proof -
  have i: "1 \<le> i" "1 < i" using assms(1) by simp_all
  have "exact_rings i = r"
    using assms(5,6,7) by (intro exact_rings_minimal [OF i(1)]) (simp_all add: totalPositionsUpToRing_def)
  then have "numRingsToHoldNumCells i = Inr r"
    using numRings_float_exact [OF i(1) assms(2)] by simp
  from getIndexOfRotatedCell_ring [OF i(2) assms(3,4) this]
  have g: "getIndexOfRotatedCell i k =
           Inr (if i + (r - 1) * k \<le> 1 + 3 * r * (r - 1) then i + (r - 1) * k
                else i + (r - 1) * k - 6 * (r - 1))"
    by (simp add: totalPositionsUpToRing_def)
  have "(r - 1) * k \<le> (r - 1) * 5"
    using assms(4,5) by (intro mult_left_mono) simp_all
  then have "i + (r - 1) * k - 6 * (r - 1) \<le> 1 + 3 * r * (r - 1)"
    using assms(5,6) by simp
  then show ?thesis using g by simp
qed

theorem getIndexOfRotatedCell_value_witness:
  "getIndexOfRotatedCell 8 2 = Inr 12 \<and> getIndexOfRotatedCell 19 1 = Inr 9"
proof -
  have a: "\<forall>r'. 1 \<le> r' \<and> (8::int) \<le> 1 + 3 * r' * (r' - 1) \<longrightarrow> 3 \<le> r'"
    using minimal_ring_bounds [of 3 8] by (simp add: totalPositionsUpToRing_def)
  have b: "\<forall>r'. 1 \<le> r' \<and> (19::int) \<le> 1 + 3 * r' * (r' - 1) \<longrightarrow> 3 \<le> r'"
    using minimal_ring_bounds [of 3 19] by (simp add: totalPositionsUpToRing_def)
  show ?thesis
    using getIndexOfRotatedCell_value [of 8 2 3, OF _ _ _ _ _ _ a]
      getIndexOfRotatedCell_value [of 19 1 3, OF _ _ _ _ _ _ b]
    by simp
qed

text \<open>
  At the initial index 3377699619864578, the first cell of ring 33554433, the ring
  count comes out as 33554432: the function adds one edge of that ring, finds the sum
  beyond its last position and subtracts six edges, where the claim has
  \<open>3377699619864578 + 33554432\<close>.
\<close>

theorem getIndexOfRotatedCell_counterexample:
  "getIndexOfRotatedCell 3377699619864578 1 = Inr 3377699452092423 \<and>
   1 + 3 * 33554432 * (33554432 - 1) < (3377699619864578::int) \<and>
   (3377699619864578::int) + (33554433 - 1) * 1 \<le> 1 + 3 * 33554433 * (33554433 - 1) \<and>
   (3377699452092423::int) \<noteq> 3377699619864578 + (33554433 - 1) * 1"
  using getIndexOfRotatedCell_ring [of 3377699619864578 1 33554432]
  by (simp add: numRings_first_failure totalPositionsUpToRing_def)

text \<open>
  C7, with the float range written out. \<open>getIndexOfRotatedCell\<close> fails with
  \<open>ValueError\<close> exactly when the initial index is below 1 or the orientation number
  is outside 0 to 5; so the calls at \<open>(0, 1)\<close> and \<open>(5, 6)\<close> fail. A call with an
  initial index of at least 1 and an orientation number from 0 to 5 returns the
  initial index unchanged when the orientation number is 0 or the index is 1, and
  returns some index whenever \<open>1 + 4 * (initialIndex - 1) div 3\<close> is at most the
  largest float, \<open>2\<^sup>1\<^sup>0\<^sup>2\<^sup>4 - 2\<^sup>9\<^sup>7\<^sup>1\<close>.
\<close>

theorem getIndexOfRotatedCell_errors:
  "(getIndexOfRotatedCell i k = Inl ValueError \<longleftrightarrow> i < 1 \<or> k < 0 \<or> 5 < k) \<and>
   getIndexOfRotatedCell 0 1 = Inl ValueError \<and>
   getIndexOfRotatedCell 5 6 = Inl ValueError \<and>
   (1 \<le> i \<and> 0 \<le> k \<and> k \<le> 5 \<and> (k = 0 \<or> i = 1) \<longrightarrow> getIndexOfRotatedCell i k = Inr i) \<and>
   (1 \<le> i \<and> 0 \<le> k \<and> k \<le> 5 \<and> 1 + 4 * (i - 1) div 3 \<le> 2 ^ 1024 - 2 ^ 971 \<longrightarrow>
      (\<exists>j. getIndexOfRotatedCell i k = Inr j))"
proof -
  have a: "getIndexOfRotatedCell i k = Inl ValueError \<longleftrightarrow> i < 1 \<or> k < 0 \<or> 5 < k"
  proof (cases "1 < i \<and> 1 \<le> k \<and> k \<le> 5")
    case True
    then have "numRingsToHoldNumCells i \<noteq> Inl ValueError"
      by (intro numRings_no_ValueError) simp
    then show ?thesis
      using True by (auto simp: getIndexOfRotatedCell_def Let_def split: sum.splits)
  next
    case False
    then show ?thesis by (auto simp: getIndexOfRotatedCell_def)
  qed
  have b: "\<exists>j. getIndexOfRotatedCell i k = Inr j"
    if "1 \<le> i" "0 \<le> k" "k \<le> 5" "1 + 4 * (i - 1) div 3 \<le> 2 ^ 1024 - 2 ^ 971"
  proof -
    have "0 \<le> i" using that(1) by simp
    from numRings_in_range [OF this that(4)]
    obtain r where "numRingsToHoldNumCells i = Inr r" by blast
    then show ?thesis using that by (auto simp: getIndexOfRotatedCell_def Let_def)
  qed
  show ?thesis
    using a b by (simp add: getIndexOfRotatedCell_def)
qed

theorem getIndexOfRotatedCell_errors_witness:
  "getIndexOfRotatedCell (- 3) 2 = Inl ValueError \<and>
   getIndexOfRotatedCell 1 4 = Inr 1 \<and> getIndexOfRotatedCell 12 0 = Inr 12 \<and>
   (\<exists>j. getIndexOfRotatedCell 12 3 = Inr j)"
  using getIndexOfRotatedCell_errors [of "- 3" 2] getIndexOfRotatedCell_errors [of 1 4]
    getIndexOfRotatedCell_errors [of 12 0] getIndexOfRotatedCell_errors [of 12 3]
  by simp

text \<open>
  At the initial index \<open>2\<^sup>1\<^sup>0\<^sup>2\<^sup>4\<close> the call raises \<open>OverflowError\<close>: the argument of the
  square root is too large to convert to a float.
\<close>

theorem getIndexOfRotatedCell_overflow_counterexample:
  "getIndexOfRotatedCell (2 ^ 1024) 1 = Inl OverflowError"
  using numRings_overflow [of "2 ^ 1024"] by (simp add: getIndexOfRotatedCell_def)


section \<open>Rotation of a data container\<close>




text \<open>
  C9, for the data that numpy stores unchanged. For every full hexagon
  (\<open>1 + 3 * R * (R - 1)\<close> cells with \<open>R \<ge> 1\<close>), every numpy array of that length,
  every list of that length that numpy converts and whose entries it gives back
  unchanged, and every number of rotations, the output has the length and the
  multiset of entries of the data. The length is bounded by
  \<open>sys.maxsize = 2\<^sup>6\<^sup>3 - 1\<close>, beyond which no Python list exists; every full
  hexagon of that size has at most \<open>2\<^sup>5\<^sup>2\<close> rings, so the ring count of its length
  is exact.
\<close>

theorem rotateHexCellData_permutation:
  assumes "1 \<le> R" and "int (length xs) = 1 + 3 * R * (R - 1)"
    and "length xs \<le> 9223372036854775807"
    and "stored_unchanged np data" and "entries data = xs"
  shows "\<exists>out. rotateHexCellData np uninit data (1 + 3 * R * (R - 1)) nRotations
                  = (data, Inr (same_kind data out))
              \<and> length out = length xs \<and> mset out = mset xs"
proof -
  have len: "int (length xs) = totalPositionsUpToRing R"
    using assms(2) by (simp add: totalPositionsUpToRing_def)
  have R2: "R \<le> 4503599627370496"
    by (rule full_hexagon_list_bound [OF assms(1) len assms(3)])
  define K where "K = nat (R - 1)"
  have N: "length xs = ring_total K"
    using len ring_total_int [of K] assms(1) by (simp add: K_def)
  have "rotateHexCellData np uninit data (totalPositionsUpToRing R) nRotations
          = (data, Inr (same_kind data (rotated_prefix xs nRotations K)))"
    unfolding K_def by (rule rotateHexCellData_unchanged [OF assms(1) R2 len assms(4,5)])
  moreover have "length (rotated_prefix xs nRotations K) = length xs"
    using N by (simp add: length_rotated_prefix)
  moreover have "mset (rotated_prefix xs nRotations K) = mset xs"
    using N by (simp add: mset_rotated_prefix)
  ultimately show ?thesis by (auto simp: totalPositionsUpToRing_def)
qed

theorem rotateHexCellData_permutation_witness:
  "\<exists>out. rotateHexCellData numpy_rows (\<lambda>_. PyNum 0)
            (PyList [PyNum 10, PyNum 11, PyNum 12, PyNum 13, PyNum 14, PyNum 15, PyNum 16]) 7 1
            = (PyList [PyNum 10, PyNum 11, PyNum 12, PyNum 13, PyNum 14, PyNum 15, PyNum 16],
               Inr (PyList out))
        \<and> length out
            = length [PyNum 10, PyNum 11, PyNum 12, PyNum 13, PyNum 14, PyNum 15, PyNum 16]
        \<and> mset out = mset [PyNum 10, PyNum 11, PyNum 12, PyNum 13, PyNum 14, PyNum 15, PyNum 16]"
proof -
  let ?xs = "[PyNum 10, PyNum 11, PyNum 12, PyNum 13, PyNum 14, PyNum 15, PyNum 16]"
  have "\<exists>out. rotateHexCellData numpy_rows (\<lambda>_. PyNum 0) (PyList ?xs) (1 + 3 * 2 * (2 - 1)) 1
                  = (PyList ?xs, Inr (same_kind (PyList ?xs) out))
              \<and> length out = length ?xs \<and> mset out = mset ?xs"
    by (rule rotateHexCellData_permutation) (simp_all add: numpy_rows_def)
  then obtain out where
    "rotateHexCellData numpy_rows (\<lambda>_. PyNum 0) (PyList ?xs) (1 + 3 * 2 * (2 - 1)) 1
       = (PyList ?xs, Inr (same_kind (PyList ?xs) out))"
    "length out = length ?xs" "mset out = mset ?xs"
    by blast
  then have "rotateHexCellData numpy_rows (\<lambda>_. PyNum 0) (PyList ?xs) 7 1
               = (PyList ?xs, Inr (PyList out))
      \<and> length out = length ?xs \<and> mset out = mset ?xs"
    by simp
  then show ?thesis by blast
qed

text \<open>
  The claim as stated takes every list. The list \<open>[(1, 2)]\<close> is a full hexagon of
  one cell; numpy makes a two-dimensional array of it, and the function returns
  \<open>[[1, 2]]\<close>, whose entry is a list where the data has a tuple.
\<close>

theorem rotateHexCellData_permutation_counterexample:
  "rotateHexCellData numpy_rows (\<lambda>_. PyNum 0) (PyList [PyTup [1, 2]]) 1 1
     = (PyList [PyTup [1, 2]], Inr (PyList [PyLst [1, 2]])) \<and>
   mset [PyLst [1, 2]] \<noteq> mset [PyTup [1, 2]]"
  by (simp add: rotate_one_tuple)




text \<open>
  C2, with the two index conventions written out, for data that numpy stores
  unchanged. The data is indexed from 0, with the centre at 0;
  \<open>getIndexOfRotatedCell\<close> numbers the cells from 1, with the centre at 1. For every
  full hexagon, every numpy array \<open>xs\<close> of that length, every list \<open>xs\<close> of that
  length (at most \<open>sys.maxsize\<close>) that numpy converts and whose entries it gives back
  unchanged, and every integer \<open>steps\<close>, the output holds the entry \<open>xs ! i\<close> at the
  index \<open>getIndexOfRotatedCell (i + 1) (steps mod 6) - 1\<close>, for every \<open>i\<close> from 0 to
  \<open>cellCount - 1\<close> whose cell number \<open>i + 1\<close> is within the range where the float
  ring count is exact (up to 3377699619864577); the entry at index 0 stays.
\<close>

theorem rotateHexCellData_index_consistency:
  assumes "1 \<le> R" and "int (length xs) = 1 + 3 * R * (R - 1)"
    and "length xs \<le> 9223372036854775807"
    and "stored_unchanged np data" and "entries data = xs"
  shows "\<exists>out. rotateHexCellData np uninit data (1 + 3 * R * (R - 1)) steps
                  = (data, Inr (same_kind data out))
              \<and> length out = length xs \<and> out ! 0 = xs ! 0
              \<and> (\<forall>i. i < length xs \<and> int i + 1 \<le> 3377699619864577 \<longrightarrow>
                    (\<exists>j. getIndexOfRotatedCell (int i + 1) (steps mod 6) = Inr j
                       \<and> 1 \<le> j \<and> j \<le> int (length xs) \<and> out ! nat (j - 1) = xs ! i))"
proof -
  have len: "int (length xs) = totalPositionsUpToRing R"
    using assms(2) by (simp add: totalPositionsUpToRing_def)
  have R2: "R \<le> 4503599627370496"
    by (rule full_hexagon_list_bound [OF assms(1) len assms(3)])
  define K where "K = nat (R - 1)"
  define out where "out = rotated_prefix xs steps K"
  have RK: "int K + 1 = R" using assms(1) by (simp add: K_def)
  have N: "length xs = ring_total K"
    using len ring_total_int [of K] by (simp add: RK)
  have ne: "xs \<noteq> []" using N by (auto simp: ring_total_def)
  have run: "rotateHexCellData np uninit data (totalPositionsUpToRing R) steps
          = (data, Inr (same_kind data out))"
    unfolding K_def out_def by (rule rotateHexCellData_unchanged [OF assms(1) R2 len assms(4,5)])
  have lo: "length out = length xs" using N by (simp add: out_def length_rotated_prefix)
  have o0: "out ! 0 = xs ! 0" unfolding out_def by (rule rotated_prefix_nth_0 [OF ne])
  have each: "\<exists>j. getIndexOfRotatedCell (int i + 1) (steps mod 6) = Inr j
                 \<and> 1 \<le> j \<and> j \<le> int (length xs) \<and> out ! nat (j - 1) = xs ! i"
    if i: "i < length xs" and ib: "int i + 1 \<le> 3377699619864577" for i
  proof (cases "i = 0")
    case True
    have "0 \<le> steps mod 6" "steps mod 6 \<le> 5" by simp_all
    then have "getIndexOfRotatedCell 1 (steps mod 6) = Inr 1"
      by (simp add: getIndexOfRotatedCell_def)
    moreover have "1 \<le> int (length xs)" using i by simp
    ultimately show ?thesis using True o0 by (intro exI [of _ 1]) simp
  next
    case False
    then have "1 \<le> i" by simp
    then obtain k where k: "Suc k \<le> K" "ring_total k \<le> i" "i < ring_total (Suc k)"
      using ring_locate [of i K] i N by auto
    from rotated_index_position [OF _ k(1) k(2,3) ib, of xs steps] N
    obtain j where j: "getIndexOfRotatedCell (int i + 1) (steps mod 6) = Inr j"
      "int (ring_total k) < j" "j \<le> int (ring_total (Suc k))"
      "out ! nat (j - 1) = xs ! i"
      unfolding out_def by auto
    have "ring_total (Suc k) \<le> length xs" using ring_total_mono [OF k(1)] N by simp
    then have "j \<le> int (length xs)" using j(3) by linarith
    moreover have "1 \<le> j" using j(2) by linarith
    ultimately show ?thesis using j(1,4) by blast
  qed
  show ?thesis
    using run lo o0 each by (auto simp: totalPositionsUpToRing_def)
qed

theorem rotateHexCellData_index_consistency_witness:
  "\<exists>out j. rotateHexCellData numpy_rows (\<lambda>_. PyNum 0)
              (PyList [PyNum 10, PyNum 11, PyNum 12, PyNum 13, PyNum 14, PyNum 15, PyNum 16]) 7 1
              = (PyList [PyNum 10, PyNum 11, PyNum 12, PyNum 13, PyNum 14, PyNum 15, PyNum 16],
                 Inr (PyList out))
          \<and> out ! 0 = PyNum 10
          \<and> getIndexOfRotatedCell 3 (1 mod 6) = Inr j \<and> out ! nat (j - 1) = PyNum 12"
proof -
  let ?xs = "[PyNum 10, PyNum 11, PyNum 12, PyNum 13, PyNum 14, PyNum 15, PyNum 16]"
  have "\<exists>out. rotateHexCellData numpy_rows (\<lambda>_. PyNum 0) (PyList ?xs) (1 + 3 * 2 * (2 - 1)) 1
                  = (PyList ?xs, Inr (same_kind (PyList ?xs) out))
              \<and> length out = length ?xs \<and> out ! 0 = ?xs ! 0
              \<and> (\<forall>i. i < length ?xs \<and> int i + 1 \<le> 3377699619864577 \<longrightarrow>
                    (\<exists>j. getIndexOfRotatedCell (int i + 1) (1 mod 6) = Inr j
                       \<and> 1 \<le> j \<and> j \<le> int (length ?xs) \<and> out ! nat (j - 1) = ?xs ! i))"
    by (rule rotateHexCellData_index_consistency) (simp_all add: numpy_rows_def)
  then obtain out where out:
    "rotateHexCellData numpy_rows (\<lambda>_. PyNum 0) (PyList ?xs) (1 + 3 * 2 * (2 - 1)) 1
       = (PyList ?xs, Inr (same_kind (PyList ?xs) out))"
    "out ! 0 = ?xs ! 0"
    "\<forall>i. i < length ?xs \<and> int i + 1 \<le> 3377699619864577 \<longrightarrow>
         (\<exists>j. getIndexOfRotatedCell (int i + 1) (1 mod 6) = Inr j
            \<and> 1 \<le> j \<and> j \<le> int (length ?xs) \<and> out ! nat (j - 1) = ?xs ! i)"
    by blast
  have "2 < length ?xs \<and> int 2 + 1 \<le> 3377699619864577" by simp
  with out(3) obtain j where "getIndexOfRotatedCell (int 2 + 1) (1 mod 6) = Inr j"
    "out ! nat (j - 1) = ?xs ! 2"
    by blast
  then have "getIndexOfRotatedCell 3 (1 mod 6) = Inr j \<and> out ! nat (j - 1) = PyNum 12"
    by simp
  moreover have "rotateHexCellData numpy_rows (\<lambda>_. PyNum 0) (PyList ?xs) 7 1
      = (PyList ?xs, Inr (PyList out)) \<and> out ! 0 = PyNum 10"
    using out(1,2) by simp
  ultimately show ?thesis by blast
qed

text \<open>
  The claim as stated uses the data index itself as the cell number. On seven cells,
  one step moves the entry at index 1 to index 2, while \<open>getIndexOfRotatedCell 1\<close> is
  1, the centre. It also takes every list: on \<open>[(1, 2)]\<close> the entry at index 0 comes
  back as the list \<open>[1, 2]\<close>, which is not the tuple that went in.
\<close>

theorem rotateHexCellData_index_counterexample:
  "rotateHexCellData numpy_rows (\<lambda>_. PyNum 0)
     (PyList [PyNum 10, PyNum 11, PyNum 12, PyNum 13, PyNum 14, PyNum 15, PyNum 16]) 7 1
     = (PyList [PyNum 10, PyNum 11, PyNum 12, PyNum 13, PyNum 14, PyNum 15, PyNum 16],
        Inr (PyList [PyNum 10, PyNum 16, PyNum 11, PyNum 12, PyNum 13, PyNum 14, PyNum 15])) \<and>
   getIndexOfRotatedCell 1 (1 mod 6) = Inr 1 \<and>
   [PyNum 10, PyNum 16, PyNum 11, PyNum 12, PyNum 13, PyNum 14, PyNum 15] ! 1
     \<noteq> [PyNum 10, PyNum 11, PyNum 12, PyNum 13, PyNum 14, PyNum 15, PyNum 16] ! 1 \<and>
   rotateHexCellData numpy_rows (\<lambda>_. PyNum 0) (PyList [PyTup [1, 2]]) 1 0
     = (PyList [PyTup [1, 2]], Inr (PyList [PyLst [1, 2]])) \<and>
   [PyLst [1, 2]] ! 0 \<noteq> [PyTup [1, 2]] ! 0"
  by (simp add: rotate_seven rotate_one_tuple getIndexOfRotatedCell_def)

end
